theory Spec2Isabelle
  imports Main
begin

section \<open>The browser pool of wirklich.js\<close>

text \<open>
  The pool of \<^verbatim>\<open>getBrowserPool\<close> is a closure over four variables (\<^verbatim>\<open>browsers\<close>,
  \<^verbatim>\<open>taskQueue\<close>, \<^verbatim>\<open>browserIdCounter\<close>, \<^verbatim>\<open>shuttingDown\<close>) that is run by the
  JavaScript event loop: every handler runs to its next \<^verbatim>\<open>await\<close> without interruption.
  The model is a record of these variables together with what the pending promises and
  handlers of the closure hold, and a function \<open>step\<close> that runs one handler.  The
  environment (the caller, Chromium, the timers) chooses the order of the events.

  Conventions.
  \<^item> Configuration numbers and priorities are integers.
  \<^item> A task is any function of the caller: a call of it returns (a promise or any other
    value) or throws, and a promise it returned is fulfilled, or rejected with a value
    that has a string \<^verbatim>\<open>message\<close> or with one that has none.
  \<^item> A rejected promise that nobody handles has no effect on the pool: what the host
    does with it is left out, and the model follows the pool for as long as it runs.
  \<^item> \<^verbatim>\<open>Array.prototype.sort\<close> is stable (ECMAScript 2019), so it is \<open>sort_key\<close>.
  \<^item> The reactions of one settled promise run in one step, except the \<^verbatim>\<open>finally\<close>
    handler of a dispatch, which is an event of its own.
  \<^item> Left out: the console output, the launch options (they are only handed to
    \<^verbatim>\<open>chromium.launch\<close>), the test \<^verbatim>\<open>!chromium\<close> of an import that is always there,
    the \<^verbatim>\<open>config\<close> part of the stats, and the task builders with their
    \<^verbatim>\<open>queueScreenshotTask\<close> and \<^verbatim>\<open>queueScreencastTask\<close>, which check the task object
    and call \<^verbatim>\<open>queueTaskWithRequirements\<close>.
\<close>

subsection \<open>Configuration\<close>

record config =
  pool_size_default :: int
  pool_size_adblock :: int
  adblockExtensionPath :: "string option"
  maxPagesPerBrowser :: int
  taskTimeoutMs :: int

text \<open>Truthiness of \<^verbatim>\<open>adblockExtensionPath\<close>: undefined and the empty string are falsy.\<close>

definition has_adblock_path :: "config \<Rightarrow> bool" where
  "has_adblock_path cfg =
     (case adblockExtensionPath cfg of None \<Rightarrow> False | Some p \<Rightarrow> p \<noteq> [])"

subsection \<open>Errors and promise settlements\<close>

datatype pool_error =
    AdblockPathRequired
  | InitializationFailed string
  | ShuttingDownNoNewTasks
  | TaskMustBeFunction
  | AdblockNotConfigured
  | AdblockPoolSizeZero
  | TaskCancelled
  | TaskTimedOut nat
  | TaskFailed string

text \<open>What a caller's promise is settled with; a result is opaque to the pool.\<close>

datatype settlement = Resolved nat | Rejected pool_error

text \<open>
  How the promise returned by a task function settles: it is fulfilled with a result, or
  rejected with a value whose \<^verbatim>\<open>message\<close> is the given string (an \<^verbatim>\<open>Error\<close>), or
  rejected with a value that has no string \<^verbatim>\<open>message\<close> (a string, \<^verbatim>\<open>undefined\<close>,
  a plain object).
\<close>

datatype task_outcome = Fulfils nat | Fails string | FailsWithoutMessage

subsection \<open>PriorityQueue\<close>

text \<open>
  What a caller hands over as a task: a function, with what a call of it does, or a value
  that is not a function.
\<close>

datatype call_result = Returns | Throws

datatype task_value = Function call_result | NotFunction

record task_requirements =
  use_adblock :: bool

text \<open>
  An item of the queue.  Its \<^verbatim>\<open>resolve\<close> and \<^verbatim>\<open>reject\<close> callbacks are not stored:
  a call of either is recorded in the pool under the item's id.
\<close>

record queue_item =
  task :: task_value
  priority :: int
  requirements :: task_requirements
  item_id :: nat

record priority_queue =
  items :: "queue_item list"
  taskIdCounter :: nat

definition enqueue ::
  "task_value \<Rightarrow> int \<Rightarrow> task_requirements \<Rightarrow> priority_queue \<Rightarrow> nat \<times> priority_queue" where
  "enqueue t p r q =
     (let i = taskIdCounter q;
          pushed = items q @ [\<lparr>task = t, priority = p, requirements = r, item_id = i\<rparr>]
      in (i, \<lparr>items = sort_key (\<lambda>a. - priority a) pushed, taskIdCounter = i + 1\<rparr>))"

definition isEmpty :: "priority_queue \<Rightarrow> bool" where
  "isEmpty q = (length (items q) = 0)"

definition dequeue :: "priority_queue \<Rightarrow> queue_item option \<times> priority_queue" where
  "dequeue q =
     (if isEmpty q then (None, q)
      else (case items q of [] \<Rightarrow> (None, q) | x # xs \<Rightarrow> (Some x, q\<lparr>items := xs\<rparr>)))"

definition remove_item :: "nat \<Rightarrow> priority_queue \<Rightarrow> priority_queue" where
  "remove_item i q = q\<lparr>items := filter (\<lambda>item. item_id item \<noteq> i) (items q)\<rparr>"

definition queue_length :: "priority_queue \<Rightarrow> nat" where
  "queue_length q = length (items q)"

subsection \<open>Pool state\<close>

text \<open>
  A \<^verbatim>\<open>browserState\<close> object.  \<open>isConnected\<close> is what \<^verbatim>\<open>browser.isConnected()\<close> of
  its Playwright handle answers.
\<close>

record browser_state =
  busy :: bool
  browser_id :: nat
  pagesOpen :: int
  browser_type :: string
  isConnected :: bool

text \<open>
  A call of \<^verbatim>\<open>_launchBrowser\<close> that waits for \<^verbatim>\<open>chromium.launch\<close>, and who waits for it.
\<close>

datatype launch_origin = WarmUp | OnDemand | Replenish | KillReplenish

record launch =
  launch_type :: string
  origin :: launch_origin
  launch_settled :: bool

text \<open>
  A dispatch: the closure that the dispatch branch of \<^verbatim>\<open>_processQueue\<close> creates.
  \<open>callThrew\<close> tells whether the call \<^verbatim>\<open>queuedItem.task(availableBrowser.browser)\<close>
  threw, in which case the branch ended there, before it made the timer, the race and
  its handlers.  \<open>taskCompleted\<close> is the variable of that name, \<open>executionSettled\<close>
  tells whether \<^verbatim>\<open>taskExecutionPromise\<close> has settled, \<open>released\<close> whether the
  \<^verbatim>\<open>finally\<close> handler has run.  \<open>pagesOpenBefore\<close> is a history variable that no
  operation reads: the value of \<^verbatim>\<open>pagesOpen\<close> that the dispatch found before it
  incremented it.
\<close>

record dispatch =
  d_task :: nat
  d_browser :: nat
  callThrew :: bool
  taskCompleted :: bool
  executionSettled :: bool
  released :: bool
  pagesOpenBefore :: int

text \<open>A call of \<^verbatim>\<open>shutdown\<close>: the browsers whose \<^verbatim>\<open>close()\<close> it still awaits.\<close>

record shutdown_call =
  closing :: "nat list"
  shutdown_resolved :: bool

text \<open>The promise that \<^verbatim>\<open>getBrowserPool\<close> returned.\<close>

datatype construction = Constructing | TearingDown nat string | Ready | Failed pool_error

text \<open>
  \<open>objects\<close> holds every \<^verbatim>\<open>browserState\<close> object created so far, the object with id
  \<open>i\<close> at index \<open>i\<close>; \<open>browsers\<close>, the dispatches and the shutdown calls refer to an
  object by this index, so that an object removed from \<open>browsers\<close> is still changed by
  the handlers that hold it.  \<open>settlements\<close> records, in order, every call of a
  \<^verbatim>\<open>resolve\<close> or \<^verbatim>\<open>reject\<close> callback of a queue item.
\<close>

record pool =
  objects :: "browser_state list"
  browsers :: "nat list"
  taskQueue :: priority_queue
  browserIdCounter :: nat
  shuttingDown :: bool
  launches :: "launch list"
  dispatches :: "dispatch list"
  settlements :: "(nat \<times> settlement) list"
  shutdowns :: "shutdown_call list"
  construction :: construction

subsection \<open>Launching and removing browsers\<close>

text \<open>\<^verbatim>\<open>_launchBrowser\<close> up to its \<^verbatim>\<open>await chromium.launch(launchOptions)\<close>.\<close>

definition launchBrowser :: "config \<Rightarrow> string \<Rightarrow> launch_origin \<Rightarrow> pool \<Rightarrow> pool" where
  "launchBrowser cfg ty org s =
     (let ty' = (if ty = ''adblock'' \<and> \<not> has_adblock_path cfg then ''default'' else ty)
      in s\<lparr>launches := launches s @ [\<lparr>launch_type = ty', origin = org, launch_settled = False\<rparr>]\<rparr>)"

text \<open>\<^verbatim>\<open>_launchBrowser\<close> after \<^verbatim>\<open>chromium.launch\<close> has resolved.\<close>

definition launch_resolved :: "string \<Rightarrow> pool \<Rightarrow> pool" where
  "launch_resolved ty s =
     (let browserId = browserIdCounter s;
          browserState = \<lparr>busy = False, browser_id = browserId, pagesOpen = 0,
                          browser_type = ty, isConnected = True\<rparr>
      in s\<lparr>browserIdCounter := browserId + 1,
           objects := objects s @ [browserState],
           browsers := browsers s @ [length (objects s)]\<rparr>)"

text \<open>\<^verbatim>\<open>findIndex\<close> followed by \<^verbatim>\<open>splice(index, 1)\<close>.\<close>

fun remove_first :: "('a \<Rightarrow> bool) \<Rightarrow> 'a list \<Rightarrow> 'a list" where
  "remove_first P [] = []"
| "remove_first P (x # xs) = (if P x then xs else x # remove_first P xs)"

text \<open>
  \<^verbatim>\<open>_removeBrowserFromPool\<close>.  Its \<^verbatim>\<open>close()\<close> of a connected browser is not awaited
  and changes nothing here: the browser's disconnection arrives later as an event.
\<close>

definition removeBrowserFromPool :: "nat \<Rightarrow> pool \<Rightarrow> pool" where
  "removeBrowserFromPool r s =
     s\<lparr>browsers :=
         remove_first (\<lambda>b. browser_id (objects s ! b) = browser_id (objects s ! r)) (browsers s)\<rparr>"

subsection \<open>The scheduler\<close>

definition requiredType :: "task_requirements \<Rightarrow> string" where
  "requiredType r = (if use_adblock r then ''adblock'' else ''default'')"

definition suitable :: "config \<Rightarrow> string \<Rightarrow> browser_state \<Rightarrow> bool" where
  "suitable cfg ty b =
     (\<not> busy b \<and> pagesOpen b < maxPagesPerBrowser cfg \<and> browser_type b = ty \<and> isConnected b)"

definition findSuitableBrowser :: "config \<Rightarrow> task_requirements \<Rightarrow> pool \<Rightarrow> nat option" where
  "findSuitableBrowser cfg taskRequirements s =
     find (\<lambda>b. suitable cfg (requiredType taskRequirements) (objects s ! b)) (browsers s)"

definition count_of_type :: "string \<Rightarrow> pool \<Rightarrow> nat" where
  "count_of_type ty s = length (filter (\<lambda>b. browser_type (objects s ! b) = ty) (browsers s))"

definition maxOfType :: "config \<Rightarrow> string \<Rightarrow> int" where
  "maxOfType cfg ty = (if ty = ''adblock'' then pool_size_adblock cfg else pool_size_default cfg)"

text \<open>
  The dispatch branch of \<^verbatim>\<open>_processQueue\<close> from \<^verbatim>\<open>availableBrowser.busy = true\<close> on:
  the browser is taken and the task is called with it.  When the call returns, the race
  against the timer is set up with its \<^verbatim>\<open>then\<close>, \<^verbatim>\<open>catch\<close> and \<^verbatim>\<open>finally\<close>
  handlers.  When the call throws, the pass ends at the call: the promise of the
  \<^verbatim>\<open>async\<close> function \<^verbatim>\<open>_processQueue\<close> is rejected, and no caller of
  \<^verbatim>\<open>_processQueue\<close> undoes anything for it.  (The queue holds functions only; calling
  any other value would throw as well.)
\<close>

definition assign :: "queue_item \<Rightarrow> nat \<Rightarrow> pool \<Rightarrow> pool" where
  "assign queuedItem availableBrowser s =
     (let b = objects s ! availableBrowser
      in s\<lparr>objects := (objects s)[availableBrowser := b\<lparr>busy := True, pagesOpen := pagesOpen b + 1\<rparr>],
           dispatches := dispatches s @
             [\<lparr>d_task = item_id queuedItem, d_browser = availableBrowser,
               callThrew = (task queuedItem \<noteq> Function Returns), taskCompleted = False,
               executionSettled = False, released = False, pagesOpenBefore = pagesOpen b\<rparr>]\<rparr>)"

definition processQueue :: "config \<Rightarrow> pool \<Rightarrow> pool" where
  "processQueue cfg s =
     (if shuttingDown s \<or> isEmpty (taskQueue s) then s
      else case items (taskQueue s) of
        [] \<Rightarrow> s
      | nextTaskItem # _ \<Rightarrow>
          (case findSuitableBrowser cfg (requirements nextTaskItem) s of
             Some availableBrowser \<Rightarrow>
               (case dequeue (taskQueue s) of
                  (None, _) \<Rightarrow> s
                | (Some queuedItem, q) \<Rightarrow> assign queuedItem availableBrowser (s\<lparr>taskQueue := q\<rparr>))
           | None \<Rightarrow>
               (let ty = requiredType (requirements nextTaskItem)
                in if int (count_of_type ty s) < maxOfType cfg ty
                   then launchBrowser cfg ty OnDemand s
                   else s)))"

subsection \<open>The runner of a dispatch\<close>

text \<open>
  What the \<^verbatim>\<open>then\<close> or the \<^verbatim>\<open>catch\<close> handler of the race calls for task \<open>t\<close> when the
  task's promise wins the race.  The \<^verbatim>\<open>catch\<close> handler evaluates
  \<^verbatim>\<open>error.message.split\<close> for its log line before it calls
  \<^verbatim>\<open>queuedItem.reject(error)\<close>: with a rejection value that has no string \<^verbatim>\<open>message\<close>
  this throws, and \<^verbatim>\<open>reject\<close> is not called.
\<close>

definition handler_calls :: "nat \<Rightarrow> task_outcome \<Rightarrow> (nat \<times> settlement) list" where
  "handler_calls t out =
     (case out of
        Fulfils v \<Rightarrow> [(t, Resolved v)]
      | Fails m \<Rightarrow> [(t, Rejected (TaskFailed m))]
      | FailsWithoutMessage \<Rightarrow> [])"

text \<open>
  \<^verbatim>\<open>taskExecutionPromise\<close> of dispatch \<open>k\<close> settles.  When the race is still open the
  \<^verbatim>\<open>then\<close> or the \<^verbatim>\<open>catch\<close> handler runs, and both set \<^verbatim>\<open>taskCompleted\<close> first;
  otherwise the race ignores the late result.
\<close>

definition task_settles :: "nat \<Rightarrow> task_outcome \<Rightarrow> pool \<Rightarrow> pool" where
  "task_settles k out s =
     (if k < length (dispatches s) \<and> \<not> callThrew (dispatches s ! k)
         \<and> \<not> executionSettled (dispatches s ! k) then
        (let d = dispatches s ! k
         in if taskCompleted d
            then s\<lparr>dispatches := (dispatches s)[k := d\<lparr>executionSettled := True\<rparr>]\<rparr>
            else s\<lparr>dispatches := (dispatches s)[k := d\<lparr>executionSettled := True, taskCompleted := True\<rparr>],
                   settlements := settlements s @ handler_calls (d_task d) out\<rparr>)
      else s)"

text \<open>The timer of dispatch \<open>k\<close> fires; its error has a message.\<close>

definition timer_fires :: "nat \<Rightarrow> pool \<Rightarrow> pool" where
  "timer_fires k s =
     (if k < length (dispatches s) \<and> \<not> callThrew (dispatches s ! k) then
        (let d = dispatches s ! k
         in if \<not> taskCompleted d
            then s\<lparr>dispatches := (dispatches s)[k := d\<lparr>taskCompleted := True\<rparr>],
                   settlements := settlements s @ [(d_task d, Rejected (TaskTimedOut (d_task d)))]\<rparr>
            else s)
      else s)"

text \<open>The body of the \<^verbatim>\<open>finally\<close> handler before its call of \<^verbatim>\<open>_processQueue\<close>.\<close>

definition release :: "nat \<Rightarrow> pool \<Rightarrow> pool" where
  "release k s =
     (let d = dispatches s ! k; b = objects s ! d_browser d
      in s\<lparr>objects := (objects s)[d_browser d := b\<lparr>pagesOpen := pagesOpen b - 1, busy := False\<rparr>],
           dispatches := (dispatches s)[k := d\<lparr>released := True\<rparr>]\<rparr>)"

text \<open>
  The \<^verbatim>\<open>finally\<close> handler of dispatch \<open>k\<close>; it runs once, after the race has settled
  and its \<^verbatim>\<open>then\<close> or \<^verbatim>\<open>catch\<close> handler has run or thrown.
\<close>

definition finally_handler :: "config \<Rightarrow> nat \<Rightarrow> pool \<Rightarrow> pool" where
  "finally_handler cfg k s =
     (if k < length (dispatches s) \<and> \<not> callThrew (dispatches s ! k)
         \<and> taskCompleted (dispatches s ! k) \<and> \<not> released (dispatches s ! k)
      then processQueue cfg (release k s)
      else s)"

subsection \<open>Disconnection, kill, shutdown\<close>

text \<open>The handler of the \<^verbatim>\<open>disconnected\<close> event of browser \<open>r\<close>.\<close>

definition on_disconnected :: "config \<Rightarrow> nat \<Rightarrow> pool \<Rightarrow> pool" where
  "on_disconnected cfg r s =
     (let s1 = removeBrowserFromPool r s
      in if \<not> shuttingDown s1 then
           (let ty = browser_type (objects s1 ! r);
                currentOfTypeCount = count_of_type ty s1;
                s2 = (if int currentOfTypeCount < maxOfType cfg ty
                      then launchBrowser cfg ty Replenish s1 else s1)
            in processQueue cfg s2)
         else s1)"

text \<open>Browser \<open>r\<close> gets disconnected (it crashed, or a \<^verbatim>\<open>close()\<close> took effect).\<close>

definition disconnected :: "config \<Rightarrow> nat \<Rightarrow> pool \<Rightarrow> pool" where
  "disconnected cfg r s =
     (if r < length (objects s) \<and> isConnected (objects s ! r)
      then on_disconnected cfg r (s\<lparr>objects := (objects s)[r := (objects s ! r)\<lparr>isConnected := False\<rparr>]\<rparr>)
      else s)"

text \<open>
  \<^verbatim>\<open>killBrowser\<close> up to the settling of its replenishing launch.  A browser instance that
  is not in \<^verbatim>\<open>browsers\<close> is only closed, which changes nothing here.
\<close>

definition killBrowser :: "config \<Rightarrow> nat \<Rightarrow> bool \<Rightarrow> string option \<Rightarrow> pool \<Rightarrow> pool" where
  "killBrowser cfg browserInstance replenish specificTypeToReplenish s =
     (case find (\<lambda>b. b = browserInstance) (browsers s) of
        Some browserState \<Rightarrow>
          (let typeToReplenish =
                 (case specificTypeToReplenish of
                    None \<Rightarrow> browser_type (objects s ! browserState)
                  | Some t \<Rightarrow> if t \<noteq> [] then t else browser_type (objects s ! browserState));
               s1 = removeBrowserFromPool browserState s
           in if replenish \<and> \<not> shuttingDown s1 then
                (if int (count_of_type typeToReplenish s1) < maxOfType cfg typeToReplenish
                 then launchBrowser cfg typeToReplenish KillReplenish s1
                 else s1)
              else s1)
      | None \<Rightarrow> s)"

text \<open>The loop of \<^verbatim>\<open>shutdown\<close> that empties the queue, rejecting every item.\<close>

fun reject_all :: "queue_item list \<Rightarrow> (nat \<times> settlement) list \<Rightarrow> (nat \<times> settlement) list" where
  "reject_all [] log = log"
| "reject_all (queuedItem # rest) log =
     reject_all rest (log @ [(item_id queuedItem, Rejected TaskCancelled)])"

text \<open>
  \<^verbatim>\<open>shutdown\<close> up to its \<^verbatim>\<open>await Promise.all(closePromises)\<close>: \<^verbatim>\<open>close()\<close> has been
  called on every browser of \<^verbatim>\<open>browsers\<close>.
\<close>

definition shutdown :: "pool \<Rightarrow> pool" where
  "shutdown s =
     s\<lparr>shuttingDown := True,
       taskQueue := (taskQueue s)\<lparr>items := []\<rparr>,
       settlements := reject_all (items (taskQueue s)) (settlements s),
       shutdowns := shutdowns s @ [\<lparr>closing = browsers s, shutdown_resolved = False\<rparr>]\<rparr>"

text \<open>
  The \<^verbatim>\<open>close()\<close> that shutdown call \<open>c\<close> awaits for browser \<open>r\<close> settles.  Playwright
  resolves it only once the browser is disconnected; when it rejects, the \<^verbatim>\<open>catch\<close>
  block removes the browser.
\<close>

definition close_settled :: "nat \<Rightarrow> nat \<Rightarrow> bool \<Rightarrow> pool \<Rightarrow> pool" where
  "close_settled c r ok s =
     (if c < length (shutdowns s) \<and> r \<in> set (closing (shutdowns s ! c)) \<and> r < length (objects s)
         \<and> (ok \<longrightarrow> \<not> isConnected (objects s ! r))
      then (let sc = shutdowns s ! c;
                s1 = s\<lparr>shutdowns := (shutdowns s)[c := sc\<lparr>closing := remove1 r (closing sc)\<rparr>]\<rparr>
            in if ok then s1 else removeBrowserFromPool r s1)
      else s)"

text \<open>
  Shutdown call \<open>c\<close> resolves: all its \<^verbatim>\<open>close()\<close> calls have settled and its last timer
  has fired.  When it is the call of the constructor's \<^verbatim>\<open>catch\<close> block, the constructor
  then throws.
\<close>

definition shutdown_resolves :: "nat \<Rightarrow> pool \<Rightarrow> pool" where
  "shutdown_resolves c s =
     (if c < length (shutdowns s) \<and> closing (shutdowns s ! c) = []
         \<and> \<not> shutdown_resolved (shutdowns s ! c)
      then (let s1 = s\<lparr>shutdowns := (shutdowns s)[c := (shutdowns s ! c)\<lparr>shutdown_resolved := True\<rparr>]\<rparr>
            in case construction s of
                 TearingDown c' msg \<Rightarrow>
                   if c' = c then s1\<lparr>construction := Failed (InitializationFailed msg)\<rparr> else s1
               | _ \<Rightarrow> s1)
      else s)"

subsection \<open>Launch settlement\<close>

text \<open>
  \<^verbatim>\<open>chromium.launch\<close> of launch \<open>l\<close> settles (\<open>None\<close>: resolves; \<open>Some msg\<close>: rejects),
  and whoever waits for the \<^verbatim>\<open>_launchBrowser\<close> call goes on.  The warm-up launches are
  awaited by \<^verbatim>\<open>Promise.all\<close>, which resolves when all have resolved and rejects with the
  first rejection.
\<close>

definition launch_settles :: "config \<Rightarrow> nat \<Rightarrow> string option \<Rightarrow> pool \<Rightarrow> pool" where
  "launch_settles cfg l failure s =
     (if l < length (launches s) \<and> \<not> launch_settled (launches s ! l) then
        (let la = launches s ! l;
             s1 = s\<lparr>launches := (launches s)[l := la\<lparr>launch_settled := True\<rparr>]\<rparr>
         in case failure of
              None \<Rightarrow>
                (let s2 = launch_resolved (launch_type la) s1
                 in case origin la of
                      WarmUp \<Rightarrow>
                        if construction s2 = Constructing
                           \<and> list_all (\<lambda>x. origin x = WarmUp \<longrightarrow> launch_settled x) (launches s2)
                        then s2\<lparr>construction := Ready\<rparr> else s2
                    | OnDemand \<Rightarrow> processQueue cfg s2
                    | Replenish \<Rightarrow> s2
                    | KillReplenish \<Rightarrow> processQueue cfg s2)
            | Some msg \<Rightarrow>
                (case origin la of
                   WarmUp \<Rightarrow>
                     if construction s1 = Constructing
                     then (shutdown s1)\<lparr>construction := TearingDown (length (shutdowns s1)) msg\<rparr>
                     else s1
                 | _ \<Rightarrow> s1))
      else s)"

subsection \<open>The facade\<close>

datatype promise = Pending nat | AlreadyRejected pool_error

definition queueTaskWithRequirements ::
  "config \<Rightarrow> task_value \<Rightarrow> task_requirements \<Rightarrow> int \<Rightarrow> pool \<Rightarrow> promise \<times> pool" where
  "queueTaskWithRequirements cfg taskFunction reqs prio s =
     (if shuttingDown s then (AlreadyRejected ShuttingDownNoNewTasks, s)
      else if taskFunction = NotFunction then (AlreadyRejected TaskMustBeFunction, s)
      else if use_adblock reqs \<and> \<not> has_adblock_path cfg then (AlreadyRejected AdblockNotConfigured, s)
      else if use_adblock reqs \<and> pool_size_adblock cfg = 0 then (AlreadyRejected AdblockPoolSizeZero, s)
      else (let (taskId, q) = enqueue taskFunction prio reqs (taskQueue s)
            in (Pending taskId, processQueue cfg (s\<lparr>taskQueue := q\<rparr>))))"

record stats =
  totalBrowsers :: int
  defaultBrowsers :: int
  adblockBrowsers :: int
  busyBrowsers :: int
  idleBrowsers :: int
  queuedTasks :: int

definition getStats :: "pool \<Rightarrow> stats" where
  "getStats s =
     \<lparr>totalBrowsers = int (length (browsers s)),
      defaultBrowsers = int (length (filter (\<lambda>b. browser_type (objects s ! b) = ''default'') (browsers s))),
      adblockBrowsers = int (length (filter (\<lambda>b. browser_type (objects s ! b) = ''adblock'') (browsers s))),
      busyBrowsers = int (length (filter (\<lambda>b. busy (objects s ! b)) (browsers s))),
      idleBrowsers = int (length (filter (\<lambda>b. \<not> busy (objects s ! b)) (browsers s))),
      queuedTasks = int (queue_length (taskQueue s))\<rparr>"

subsection \<open>Construction\<close>

definition empty_pool :: pool where
  "empty_pool =
     \<lparr>objects = [], browsers = [], taskQueue = \<lparr>items = [], taskIdCounter = 0\<rparr>,
      browserIdCounter = 0, shuttingDown = False, launches = [], dispatches = [],
      settlements = [], shutdowns = [], construction = Constructing\<rparr>"

text \<open>
  \<^verbatim>\<open>getBrowserPool\<close> up to its \<^verbatim>\<open>await Promise.all(browserLaunchPromises)\<close>; with no
  launch to wait for the pool is ready at once.
\<close>

definition getBrowserPool :: "config \<Rightarrow> pool_error + pool" where
  "getBrowserPool cfg =
     (if pool_size_adblock cfg > 0 \<and> \<not> has_adblock_path cfg then Inl AdblockPathRequired
      else
        (let s1 = ((launchBrowser cfg ''default'' WarmUp) ^^ nat (pool_size_default cfg)) empty_pool;
             s2 = (if pool_size_adblock cfg > 0 \<and> has_adblock_path cfg
                   then ((launchBrowser cfg ''adblock'' WarmUp) ^^ nat (pool_size_adblock cfg)) s1
                   else s1)
         in Inr (if launches s2 = [] then s2\<lparr>construction := Ready\<rparr> else s2)))"

subsection \<open>Events\<close>

text \<open>
  What can happen to a pool.  The first three are calls of the facade, possible once the
  constructor has returned the pool: \<^verbatim>\<open>queueTaskWithRequirements\<close>, \<^verbatim>\<open>killBrowser\<close>
  (of the browser with the given index, with \<^verbatim>\<open>replenish\<close> and
  \<^verbatim>\<open>specificTypeToReplenish\<close>) and \<^verbatim>\<open>shutdown\<close>.  The others come from the
  environment: the launch with the given index in \<open>launches\<close> resolves or rejects, a
  browser disconnects, the task function of a dispatch settles, the timer of a dispatch
  fires, the \<^verbatim>\<open>finally\<close> handler of a dispatch runs, a \<^verbatim>\<open>close()\<close> awaited by a
  shutdown call resolves or rejects, a shutdown call resolves.  An event that cannot
  happen in a state (a timer of a dispatch that does not exist, a second settlement of a
  launch) leaves it unchanged.
\<close>

datatype event =
    Enqueue task_value task_requirements int
  | KillBrowser nat bool "string option"
  | Shutdown
  | LaunchSettles nat "string option"
  | Disconnected nat
  | TaskSettles nat task_outcome
  | TimerFires nat
  | Finally nat
  | CloseSettled nat nat bool
  | ShutdownResolves nat

fun step :: "config \<Rightarrow> event \<Rightarrow> pool \<Rightarrow> pool" where
  "step cfg (Enqueue t r p) s =
     (if construction s = Ready then snd (queueTaskWithRequirements cfg t r p s) else s)"
| "step cfg (KillBrowser b replenish ty) s =
     (if construction s = Ready then killBrowser cfg b replenish ty s else s)"
| "step cfg Shutdown s = (if construction s = Ready then shutdown s else s)"
| "step cfg (LaunchSettles l failure) s = launch_settles cfg l failure s"
| "step cfg (Disconnected r) s = disconnected cfg r s"
| "step cfg (TaskSettles k out) s = task_settles k out s"
| "step cfg (TimerFires k) s = timer_fires k s"
| "step cfg (Finally k) s = finally_handler cfg k s"
| "step cfg (CloseSettled c r ok) s = close_settled c r ok s"
| "step cfg (ShutdownResolves c) s = shutdown_resolves c s"

definition run :: "config \<Rightarrow> event list \<Rightarrow> pool \<Rightarrow> pool" where
  "run cfg evs s = foldl (\<lambda>st e. step cfg e st) s evs"

section \<open>Notions for stating the properties\<close>

subsection \<open>Order of the queue\<close>

text \<open>
  \<open>served_before a b\<close>: \<open>a\<close> has the higher priority, or the same priority and the
  smaller id.  Ids are given out in the order of the \<^verbatim>\<open>enqueue\<close> calls.
\<close>

definition served_before :: "queue_item \<Rightarrow> queue_item \<Rightarrow> bool" where
  "served_before a b =
     (priority b < priority a \<or> (priority a = priority b \<and> item_id a < item_id b))"

definition queue_ok :: "priority_queue \<Rightarrow> bool" where
  "queue_ok q = (sorted_wrt served_before (items q) \<and> (\<forall>x\<in>set (items q). item_id x < taskIdCounter q))"

subsection \<open>Dispatches on a browser\<close>

text \<open>
  The dispatches that hold browser \<open>i\<close> (their \<^verbatim>\<open>finally\<close> handler has not run), and
  the dispatches whose task function returned a promise that has not settled: it is still
  executing on the browser.
\<close>

definition holders :: "dispatch list \<Rightarrow> nat \<Rightarrow> nat" where
  "holders ds i = length (filter (\<lambda>d. d_browser d = i \<and> \<not> released d) ds)"

definition executing :: "dispatch list \<Rightarrow> nat \<Rightarrow> nat" where
  "executing ds i =
     length (filter (\<lambda>d. d_browser d = i \<and> \<not> callThrew d \<and> \<not> executionSettled d) ds)"

text \<open>
  The invariant of the roster: \<open>browsers\<close> and the dispatches refer to objects that
  exist, and on every object \<^verbatim>\<open>pagesOpen\<close> and \<^verbatim>\<open>busy\<close> tell how many
  dispatches hold it, which is at most one.
\<close>

definition roster_ok :: "config \<Rightarrow> pool \<Rightarrow> bool" where
  "roster_ok cfg s =
     ((\<forall>b\<in>set (browsers s). b < length (objects s)) \<and>
      (\<forall>d\<in>set (dispatches s). d_browser d < length (objects s) \<and> pagesOpenBefore d = 0
          \<and> (released d \<longrightarrow> taskCompleted d)) \<and>
      (dispatches s \<noteq> [] \<longrightarrow> 0 < maxPagesPerBrowser cfg) \<and>
      (\<forall>i<length (objects s).
          holders (dispatches s) i \<le> 1 \<and>
          pagesOpen (objects s ! i) = int (holders (dispatches s) i) \<and>
          busy (objects s ! i) = (holders (dispatches s) i = 1)))"

subsection \<open>Settlements of the callers' promises\<close>

text \<open>The calls of \<^verbatim>\<open>resolve\<close> and \<^verbatim>\<open>reject\<close> made for task \<open>t\<close>, in order.\<close>

definition settled_with :: "(nat \<times> settlement) list \<Rightarrow> nat \<Rightarrow> settlement list" where
  "settled_with calls t = map snd (filter (\<lambda>c. fst c = t) calls)"

text \<open>
  The invariant of the tasks: a task is in the queue or dispatched, never both and never
  twice; a queued task has no settlement, a dispatched one has none while its race is
  open, and no task has more than one.
\<close>

definition tasks_ok :: "pool \<Rightarrow> bool" where
  "tasks_ok s =
     ((\<forall>d\<in>set (dispatches s).
          d_task d < taskIdCounter (taskQueue s) \<and>
          d_task d \<notin> item_id ` set (items (taskQueue s)) \<and>
          (\<not> taskCompleted d \<longrightarrow> settled_with (settlements s) (d_task d) = []) \<and>
          (executionSettled d \<longrightarrow> taskCompleted d)) \<and>
      distinct (map d_task (dispatches s)) \<and>
      distinct (map item_id (items (taskQueue s))) \<and>
      (\<forall>x\<in>set (items (taskQueue s)).
          item_id x < taskIdCounter (taskQueue s) \<and> settled_with (settlements s) (item_id x) = []) \<and>
      (\<forall>t. taskIdCounter (taskQueue s) \<le> t \<longrightarrow> settled_with (settlements s) t = []) \<and>
      (\<forall>t. length (settled_with (settlements s) t) \<le> 1))"

definition extends_calls :: "pool \<Rightarrow> pool \<Rightarrow> bool" where
  "extends_calls s s' =
     (\<exists>new. settlements s' = settlements s @ new
        \<and> (\<forall>c\<in>set new. settled_with (settlements s) (fst c) = []))"

subsection \<open>Browser types\<close>

definition known_type :: "string \<Rightarrow> bool" where
  "known_type ty = (ty = ''default'' \<or> ty = ''adblock'')"

definition types_ok :: "pool \<Rightarrow> bool" where
  "types_ok s =
     ((\<forall>b\<in>set (objects s). known_type (browser_type b)) \<and>
      (\<forall>l\<in>set (launches s). known_type (launch_type l)))"

text \<open>
  An event other than a \<^verbatim>\<open>killBrowser\<close> call that names a type to replenish which is
  neither \<^verbatim>\<open>default\<close> nor \<^verbatim>\<open>adblock\<close>.
\<close>

definition plain_kill :: "event \<Rightarrow> bool" where
  "plain_kill e =
     (case e of KillBrowser b replenish (Some ty) \<Rightarrow> ty = [] \<or> known_type ty | _ \<Rightarrow> True)"

subsection \<open>Shutting down\<close>

text \<open>
  The invariant of the references: the object with id \<open>i\<close> is at index \<open>i\<close>, and the
  roster holds connected objects, each once.
\<close>

definition refs_ok :: "pool \<Rightarrow> bool" where
  "refs_ok s =
     ((\<forall>i<length (objects s). browser_id (objects s ! i) = i) \<and>
      browserIdCounter s = length (objects s) \<and>
      (\<forall>b\<in>set (browsers s). b < length (objects s) \<and> isConnected (objects s ! b)) \<and>
      distinct (browsers s))"

text \<open>
  Shutdown call \<open>c\<close> is under way or over and no launch is: the pool is shutting down,
  the queue is empty, every launch has settled, and the call still awaits the
  \<^verbatim>\<open>close()\<close> of every browser of the roster.
\<close>

definition winding_down :: "nat \<Rightarrow> pool \<Rightarrow> bool" where
  "winding_down c s =
     (shuttingDown s \<and> items (taskQueue s) = [] \<and>
      (\<forall>l\<in>set (launches s). launch_settled l) \<and>
      c < length (shutdowns s) \<and>
      set (browsers s) \<subseteq> set (closing (shutdowns s ! c)) \<and>
      (shutdown_resolved (shutdowns s ! c) \<longrightarrow> closing (shutdowns s ! c) = []))"

text \<open>
  The constructor waits for shutdown call \<open>c\<close> of its \<^verbatim>\<open>catch\<close> block, or has thrown
  after it.
\<close>

definition torn_down :: "nat \<Rightarrow> string \<Rightarrow> pool \<Rightarrow> bool" where
  "torn_down c msg s =
     (c < length (shutdowns s) \<and>
      (construction s = TearingDown c msg \<or>
       construction s = Failed (InitializationFailed msg) \<and> shutdown_resolved (shutdowns s ! c)))"

subsection \<open>Example configurations and event sequences\<close>

definition one_default :: config where
  "one_default = \<lparr>pool_size_default = 1, pool_size_adblock = 0, adblockExtensionPath = None,
                   maxPagesPerBrowser = 1, taskTimeoutMs = 60000\<rparr>"

definition default_and_adblock :: config where
  "default_and_adblock = \<lparr>pool_size_default = 1, pool_size_adblock = 1,
                           adblockExtensionPath = Some ''ext'', maxPagesPerBrowser = 1,
                           taskTimeoutMs = 60000\<rparr>"

definition plain_task :: "int \<Rightarrow> event" where
  "plain_task p = Enqueue (Function Returns) \<lparr>use_adblock = False\<rparr> p"

text \<open>
  One task runs and one waits when the only browser crashes: the handler launches a
  replacement, and the scheduler pass it starts launches another browser for the waiting
  task.
\<close>

definition crash_trace :: "event list" where
  "crash_trace = [LaunchSettles 0 None, plain_task 0, plain_task 0, Disconnected 0,
                  LaunchSettles 1 None, LaunchSettles 2 None]"

text \<open>The same up to the moment the replacement is in the roster and the task still waits.\<close>

definition idle_browser_trace :: "event list" where
  "idle_browser_trace = [LaunchSettles 0 None, plain_task 0, plain_task 0, Disconnected 0,
                         LaunchSettles 1 None]"

text \<open>
  The same with the adblock browser of a pool that also has a default browser: browser 0
  is free, the replacement (browser 2) is in the roster, and a task that needs adblock
  waits.
\<close>

definition idle_adblock_trace :: "event list" where
  "idle_adblock_trace = [LaunchSettles 0 None, LaunchSettles 1 None,
                         Enqueue (Function Returns) \<lparr>use_adblock = True\<rparr> 0,
                         Enqueue (Function Returns) \<lparr>use_adblock = True\<rparr> 0,
                         Disconnected 1, LaunchSettles 2 None]"

text \<open>A task times out, its browser is released and the next task is dispatched to it.\<close>

definition timeout_trace :: "event list" where
  "timeout_trace = [LaunchSettles 0 None, plain_task 0, TimerFires 0, Finally 0, plain_task 0]"

text \<open>What follows a timeout: the release, the late result, another task, a shutdown.\<close>

definition late_result_trace :: "event list" where
  "late_result_trace = [Finally 0, TaskSettles 0 (Fulfils 7), plain_task 3, Shutdown]"

text \<open>
  The only browser crashes, and \<^verbatim>\<open>shutdown\<close> is called while the replacement is being
  launched; the launch resolves before the shutdown does.
\<close>

definition late_launch_trace :: "event list" where
  "late_launch_trace = [LaunchSettles 0 None, Disconnected 0, Shutdown, LaunchSettles 1 None,
                        ShutdownResolves 0]"

text \<open>
  Of two warm-up launches the second fails while the first is still pending; the first
  resolves during the tear-down.
\<close>

definition warmup_failure_trace :: "event list" where
  "warmup_failure_trace = [LaunchSettles 1 (Some ''boom''), LaunchSettles 0 None, ShutdownResolves 0]"

text \<open>
  A task has run on the only browser, which is how a caller comes to hold it; then
  \<^verbatim>\<open>killBrowser(browser, true, "foo")\<close>, and the launch it starts resolves.
\<close>

definition odd_kill_trace :: "event list" where
  "odd_kill_trace = [LaunchSettles 0 None, plain_task 0, TaskSettles 0 (Fulfils 0), Finally 0,
                     KillBrowser 0 True (Some ''foo''), LaunchSettles 1 None]"

text \<open>
  A default and an adblock browser, a task running on each and one waiting;
  \<^verbatim>\<open>killBrowser(browser, true, "adblock")\<close> of the adblock browser, and its replacement.
\<close>

definition plain_kill_trace :: "event list" where
  "plain_kill_trace = [LaunchSettles 0 None, LaunchSettles 1 None,
                       Enqueue (Function Returns) \<lparr>use_adblock = True\<rparr> 0, plain_task 0, plain_task 0,
                       KillBrowser 1 True (Some ''adblock''), LaunchSettles 2 None]"

text \<open>
  A task whose promise is rejected with a value that has no message, as that of
  \<^verbatim>\<open>async () => { throw "boom" }\<close> is.
\<close>

definition bare_rejection_trace :: "event list" where
  "bare_rejection_trace = [LaunchSettles 0 None, plain_task 0, TaskSettles 0 FailsWithoutMessage]"

text \<open>
  A task that throws when it is called, as \<^verbatim>\<open>() => { throw "boom" }\<close>
  does.
\<close>

definition throwing_call_trace :: "event list" where
  "throwing_call_trace = [LaunchSettles 0 None, Enqueue (Function Throws) \<lparr>use_adblock = False\<rparr> 0]"

text \<open>
  What may follow when dispatch 0 never set up its race: another task, and a timer, a
  result and a \<^verbatim>\<open>finally\<close> handler that do not exist for it.
\<close>

definition starved_trace :: "event list" where
  "starved_trace = [plain_task 0, TimerFires 0, TaskSettles 0 (Fulfils 0), Finally 0]"

text \<open>Six tasks of priorities 0, 1, 2, 1, 2, 0; the first is dispatched at once.\<close>

definition priority_trace :: "event list" where
  "priority_trace = [LaunchSettles 0 None, plain_task 0, plain_task 1, plain_task 2, plain_task 1,
                     plain_task 2, plain_task 0]"

text \<open>One task runs and two wait.\<close>

definition drain_trace :: "event list" where
  "drain_trace = [LaunchSettles 0 None, plain_task 0, plain_task 4, plain_task 2]"

text \<open>
  After a call of \<^verbatim>\<open>shutdown\<close>: an enqueue, the closing of browser 0, the timeout of
  the running task, and the end of the shutdown.
\<close>

definition after_shutdown_trace :: "event list" where
  "after_shutdown_trace = [plain_task 1, Disconnected 0, CloseSettled 0 0 True, TimerFires 0, Finally 0,
                           ShutdownResolves 0]"

text \<open>The tear-down of a pool with one launched browser.\<close>

definition teardown_trace :: "event list" where
  "teardown_trace = [Disconnected 0, CloseSettled 0 0 True, ShutdownResolves 0]"

section \<open>Lemmas\<close>

subsection \<open>Sorting a queue that was sorted\<close>

lemma sort_key_push:
  "sorted (map f xs) \<Longrightarrow>
   foldr (insort_key f) xs [x] = filter (\<lambda>y. f y \<le> f x) xs @ x # filter (\<lambda>y. f x < f y) xs"
proof (induction xs)
  case Nil
  then show ?case by simp
next
  case (Cons y ys)
  then have le: "\<forall>z\<in>set ys. f y \<le> f z" and srt: "sorted (map f ys)" by auto
  show ?case
  proof (cases "f y \<le> f x")
    case True
    have "insort_key f y (filter (\<lambda>y. f y \<le> f x) ys @ x # filter (\<lambda>y. f x < f y) ys)
          = y # filter (\<lambda>y. f y \<le> f x) ys @ x # filter (\<lambda>y. f x < f y) ys"
      using le True by (intro insort_is_Cons) auto
    with Cons.IH [OF srt] True show ?thesis by simp
  next
    case False
    then have lt: "f x < f y" by simp
    with le have all: "\<forall>z\<in>set ys. f x < f z" by auto
    then have a: "filter (\<lambda>y. f y \<le> f x) ys = []" and b: "filter (\<lambda>y. f x < f y) ys = ys"
      by (auto simp: filter_empty_conv filter_id_conv)
    have "insort_key f y ys = y # ys" using le by (intro insort_is_Cons) auto
    with Cons.IH [OF srt] a b lt show ?thesis by simp
  qed
qed

lemma served_before_sorted:
  "sorted_wrt served_before xs \<Longrightarrow> sorted (map (\<lambda>a. - priority a) xs)"
  by (induction xs) (auto simp: served_before_def)

lemma queue_ok_enqueue:
  assumes "queue_ok q"
  shows "queue_ok (snd (enqueue t p r q))"
proof -
  let ?x = "\<lparr>task = t, priority = p, requirements = r, item_id = taskIdCounter q\<rparr>"
  let ?f = "\<lambda>a. - priority a"
  from assms have sw: "sorted_wrt served_before (items q)"
    and ids: "\<forall>y\<in>set (items q). item_id y < taskIdCounter q"
    by (auto simp: queue_ok_def)
  have eq: "sort_key ?f (items q @ [?x])
        = filter (\<lambda>y. ?f y \<le> ?f ?x) (items q) @ ?x # filter (\<lambda>y. ?f ?x < ?f y) (items q)"
    using sort_key_push [OF served_before_sorted [OF sw], of ?x] by (simp add: sort_key_def)
  have "sorted_wrt served_before (sort_key ?f (items q @ [?x]))"
    unfolding eq using sw ids
    by (auto simp: sorted_wrt_append sorted_wrt_filter served_before_def)
  moreover have "\<forall>y\<in>set (sort_key ?f (items q @ [?x])). item_id y < taskIdCounter q + 1"
    using ids by (auto simp: less_Suc_eq)
  ultimately show ?thesis by (simp add: queue_ok_def enqueue_def Let_def)
qed

lemma queue_ok_head:
  "queue_ok q \<Longrightarrow> items q = x # rest \<Longrightarrow> y \<in> set rest \<Longrightarrow> served_before x y"
  by (simp add: queue_ok_def)

subsection \<open>What each operation changes\<close>

lemma launchBrowser_fields [simp]:
  "objects (launchBrowser cfg ty org s) = objects s"
  "browsers (launchBrowser cfg ty org s) = browsers s"
  "taskQueue (launchBrowser cfg ty org s) = taskQueue s"
  "shuttingDown (launchBrowser cfg ty org s) = shuttingDown s"
  "dispatches (launchBrowser cfg ty org s) = dispatches s"
  "settlements (launchBrowser cfg ty org s) = settlements s"
  "shutdowns (launchBrowser cfg ty org s) = shutdowns s"
  "construction (launchBrowser cfg ty org s) = construction s"
  by (simp_all add: launchBrowser_def Let_def)

lemma launch_resolved_fields [simp]:
  "objects (launch_resolved ty s) =
     objects s @ [\<lparr>busy = False, browser_id = browserIdCounter s, pagesOpen = 0,
                   browser_type = ty, isConnected = True\<rparr>]"
  "browsers (launch_resolved ty s) = browsers s @ [length (objects s)]"
  "taskQueue (launch_resolved ty s) = taskQueue s"
  "shuttingDown (launch_resolved ty s) = shuttingDown s"
  "launches (launch_resolved ty s) = launches s"
  "dispatches (launch_resolved ty s) = dispatches s"
  "settlements (launch_resolved ty s) = settlements s"
  "shutdowns (launch_resolved ty s) = shutdowns s"
  "construction (launch_resolved ty s) = construction s"
  by (simp_all add: launch_resolved_def Let_def)

lemma removeBrowserFromPool_fields [simp]:
  "objects (removeBrowserFromPool r s) = objects s"
  "taskQueue (removeBrowserFromPool r s) = taskQueue s"
  "shuttingDown (removeBrowserFromPool r s) = shuttingDown s"
  "launches (removeBrowserFromPool r s) = launches s"
  "dispatches (removeBrowserFromPool r s) = dispatches s"
  "settlements (removeBrowserFromPool r s) = settlements s"
  "shutdowns (removeBrowserFromPool r s) = shutdowns s"
  "construction (removeBrowserFromPool r s) = construction s"
  by (simp_all add: removeBrowserFromPool_def)

lemma set_remove_first: "set (remove_first P xs) \<subseteq> set xs"
  by (induction xs) auto

lemma removeBrowserFromPool_browsers:
  "set (browsers (removeBrowserFromPool r s)) \<subseteq> set (browsers s)"
  by (simp add: removeBrowserFromPool_def set_remove_first)

lemma assign_fields [simp]:
  "browsers (assign x b s) = browsers s"
  "taskQueue (assign x b s) = taskQueue s"
  "shuttingDown (assign x b s) = shuttingDown s"
  "launches (assign x b s) = launches s"
  "settlements (assign x b s) = settlements s"
  "shutdowns (assign x b s) = shutdowns s"
  "construction (assign x b s) = construction s"
  by (simp_all add: assign_def Let_def)

lemma shutdown_fields [simp]:
  "objects (shutdown s) = objects s"
  "browsers (shutdown s) = browsers s"
  "shuttingDown (shutdown s)"
  "items (taskQueue (shutdown s)) = []"
  "taskIdCounter (taskQueue (shutdown s)) = taskIdCounter (taskQueue s)"
  "launches (shutdown s) = launches s"
  "dispatches (shutdown s) = dispatches s"
  "construction (shutdown s) = construction s"
  by (simp_all add: shutdown_def)

text \<open>The three ways a scheduler pass can go.\<close>

lemma processQueue_cases [case_names idle dispatch launch]:
  obtains "processQueue cfg s = s"
  | x rest b where "\<not> shuttingDown s" and "items (taskQueue s) = x # rest"
      and "findSuitableBrowser cfg (requirements x) s = Some b"
      and "processQueue cfg s = assign x b (s\<lparr>taskQueue := (taskQueue s)\<lparr>items := rest\<rparr>\<rparr>)"
  | x rest where "\<not> shuttingDown s" and "items (taskQueue s) = x # rest"
      and "findSuitableBrowser cfg (requirements x) s = None"
      and "int (count_of_type (requiredType (requirements x)) s) < maxOfType cfg (requiredType (requirements x))"
      and "processQueue cfg s = launchBrowser cfg (requiredType (requirements x)) OnDemand s"
proof (cases "shuttingDown s \<or> items (taskQueue s) = []")
  case True
  then have "processQueue cfg s = s"
    by (auto simp: processQueue_def isEmpty_def)
  then show ?thesis by (rule that(1))
next
  case False
  then obtain x rest where xs: "items (taskQueue s) = x # rest" and sd: "\<not> shuttingDown s"
    by (cases "items (taskQueue s)") auto
  show ?thesis
  proof (cases "findSuitableBrowser cfg (requirements x) s")
    case None
    show ?thesis
    proof (cases "int (count_of_type (requiredType (requirements x)) s) < maxOfType cfg (requiredType (requirements x))")
      case True
      with None xs sd have "processQueue cfg s = launchBrowser cfg (requiredType (requirements x)) OnDemand s"
        by (simp add: processQueue_def isEmpty_def Let_def)
      with sd xs None True show ?thesis by (rule that(3))
    next
      case False
      with None xs sd have "processQueue cfg s = s"
        by (simp add: processQueue_def isEmpty_def Let_def)
      then show ?thesis by (rule that(1))
    qed
  next
    case (Some b)
    with xs sd have "processQueue cfg s = assign x b (s\<lparr>taskQueue := (taskQueue s)\<lparr>items := rest\<rparr>\<rparr>)"
      by (simp add: processQueue_def isEmpty_def dequeue_def)
    with sd xs Some show ?thesis by (rule that(2))
  qed
qed

lemma processQueue_fields [simp]:
  "browsers (processQueue cfg s) = browsers s"
  "shuttingDown (processQueue cfg s) = shuttingDown s"
  "settlements (processQueue cfg s) = settlements s"
  "shutdowns (processQueue cfg s) = shutdowns s"
  "construction (processQueue cfg s) = construction s"
  by (cases cfg s rule: processQueue_cases; simp)+

subsection \<open>Counting the dispatches that hold a browser\<close>

lemma holders_append [simp]:
  "holders (ds @ [d]) i = holders ds i + (if d_browser d = i \<and> \<not> released d then 1 else 0)"
  by (simp add: holders_def)

lemma holders_Nil [simp]: "holders [] i = 0"
  by (simp add: holders_def)

lemma holders_unheld: "\<forall>d\<in>set ds. d_browser d \<noteq> i \<Longrightarrow> holders ds i = 0"
  by (simp add: holders_def)

lemma holders_update:
  "k < length ds \<Longrightarrow>
   holders (ds[k := x]) i + (if d_browser (ds ! k) = i \<and> \<not> released (ds ! k) then 1 else 0)
   = holders ds i + (if d_browser x = i \<and> \<not> released x then 1 else 0)"
proof (induction ds arbitrary: k)
  case Nil
  then show ?case by simp
next
  case (Cons d ds)
  show ?case
  proof (cases k)
    case 0
    then show ?thesis by (simp add: holders_def)
  next
    case (Suc j)
    with Cons.prems have "j < length ds" by simp
    from Cons.IH [OF this] Suc show ?thesis by (auto simp: holders_def split: if_splits)
  qed
qed

lemma holders_update_same:
  "k < length ds \<Longrightarrow> d_browser x = d_browser (ds ! k) \<Longrightarrow> released x = released (ds ! k) \<Longrightarrow>
   holders (ds[k := x]) i = holders ds i"
  using holders_update [of k ds x i] by (simp split: if_splits)

lemma holders_update_release:
  "k < length ds \<Longrightarrow> \<not> released (ds ! k) \<Longrightarrow> d_browser x = d_browser (ds ! k) \<Longrightarrow> released x \<Longrightarrow>
   holders (ds[k := x]) i + (if d_browser (ds ! k) = i then 1 else 0) = holders ds i"
  using holders_update [of k ds x i] by (simp split: if_splits)

subsection \<open>The roster invariant\<close>

lemma roster_ok_cong:
  "browsers s' = browsers s \<Longrightarrow> objects s' = objects s \<Longrightarrow> dispatches s' = dispatches s \<Longrightarrow>
   roster_ok cfg s' = roster_ok cfg s"
  by (simp add: roster_ok_def)

lemma roster_ok_shrink:
  "roster_ok cfg s \<Longrightarrow> set (browsers s') \<subseteq> set (browsers s) \<Longrightarrow> objects s' = objects s \<Longrightarrow>
   dispatches s' = dispatches s \<Longrightarrow> roster_ok cfg s'"
  by (auto simp: roster_ok_def)

lemma roster_ok_launchBrowser [simp]:
  "roster_ok cfg (launchBrowser cfg' ty org s) = roster_ok cfg s"
  by (rule roster_ok_cong) simp_all

lemma roster_ok_removeBrowserFromPool:
  "roster_ok cfg s \<Longrightarrow> roster_ok cfg (removeBrowserFromPool r s)"
  by (erule roster_ok_shrink) (simp_all add: removeBrowserFromPool_browsers)

lemma roster_ok_shutdown [simp]: "roster_ok cfg (shutdown s) = roster_ok cfg s"
  by (rule roster_ok_cong) simp_all

lemma roster_ok_launch_resolved:
  assumes "roster_ok cfg s"
  shows "roster_ok cfg (launch_resolved ty s)"
proof -
  from assms have "\<forall>d\<in>set (dispatches s). d_browser d \<noteq> length (objects s)"
    by (auto simp: roster_ok_def)
  then have "holders (dispatches s) (length (objects s)) = 0"
    by (rule holders_unheld)
  with assms show ?thesis
    by (auto simp: roster_ok_def nth_append less_Suc_eq)
qed

lemma find_SomeD: "find P xs = Some x \<Longrightarrow> x \<in> set xs \<and> P x"
  by (induction xs) (auto split: if_splits)

lemma roster_ok_assign:
  assumes ok: "roster_ok cfg s" and f: "findSuitableBrowser cfg req s = Some b"
    and s': "browsers s' = browsers s" "objects s' = objects s" "dispatches s' = dispatches s"
  shows "roster_ok cfg (assign x b s')"
proof -
  from f have b: "b \<in> set (browsers s)" and su: "suitable cfg (requiredType req) (objects s ! b)"
    by (auto simp: findSuitableBrowser_def dest: find_SomeD)
  from ok b have lt: "b < length (objects s)" by (simp add: roster_ok_def)
  from ok lt su have h0: "holders (dispatches s) b = 0" and p0: "pagesOpen (objects s ! b) = 0"
    by (auto simp: roster_ok_def suitable_def)
  from su p0 have mx: "0 < maxPagesPerBrowser cfg" by (simp add: suitable_def)
  show ?thesis
    using ok lt h0 p0 mx s'
    by (auto simp: roster_ok_def assign_def Let_def nth_list_update)
qed

lemma roster_ok_processQueue:
  assumes "roster_ok cfg s"
  shows "roster_ok cfg (processQueue cfg s)"
proof (cases cfg s rule: processQueue_cases)
  case idle
  with assms show ?thesis by simp
next
  case (dispatch x rest b)
  show ?thesis
    unfolding dispatch(4) by (rule roster_ok_assign [OF assms dispatch(3)]) simp_all
next
  case (launch x rest)
  with assms show ?thesis by simp
qed

lemma roster_ok_flag:
  assumes ok: "roster_ok cfg s" and k: "k < length (dispatches s)"
    and x: "d_browser x = d_browser (dispatches s ! k)" "released x = released (dispatches s ! k)"
       "pagesOpenBefore x = pagesOpenBefore (dispatches s ! k)"
       "taskCompleted (dispatches s ! k) \<longrightarrow> taskCompleted x"
    and s': "browsers s' = browsers s" "objects s' = objects s"
       "dispatches s' = (dispatches s)[k := x]"
  shows "roster_ok cfg s'"
proof -
  from k have mem: "dispatches s ! k \<in> set (dispatches s)" by simp
  have h: "\<And>i. holders ((dispatches s)[k := x]) i = holders (dispatches s) i"
    using k x by (simp add: holders_update_same)
  have "\<forall>d\<in>set ((dispatches s)[k := x]). d_browser d < length (objects s) \<and> pagesOpenBefore d = 0
          \<and> (released d \<longrightarrow> taskCompleted d)"
  proof
    fix d assume "d \<in> set ((dispatches s)[k := x])"
    then have "d = x \<or> d \<in> set (dispatches s)"
      using set_update_subset_insert [of "dispatches s" k x] by auto
    then show "d_browser d < length (objects s) \<and> pagesOpenBefore d = 0 \<and> (released d \<longrightarrow> taskCompleted d)"
      using ok mem x by (auto simp: roster_ok_def)
  qed
  with ok h s' k show ?thesis
    by (simp add: roster_ok_def)
qed

lemma roster_ok_task_settles:
  assumes "roster_ok cfg s"
  shows "roster_ok cfg (task_settles k out s)"
proof (cases "k < length (dispatches s) \<and> \<not> callThrew (dispatches s ! k)
    \<and> \<not> executionSettled (dispatches s ! k)")
  case True
  then have k: "k < length (dispatches s)" by simp
  let ?d = "dispatches s ! k"
  show ?thesis
  proof (cases "taskCompleted ?d")
    case True
    have "roster_ok cfg (s\<lparr>dispatches := (dispatches s)[k := ?d\<lparr>executionSettled := True\<rparr>]\<rparr>)"
      by (rule roster_ok_flag [OF assms k, where x = "?d\<lparr>executionSettled := True\<rparr>"]) simp_all
    with True \<open>k < length (dispatches s) \<and> \<not> callThrew ?d \<and> \<not> executionSettled ?d\<close> show ?thesis
      by (simp add: task_settles_def Let_def)
  next
    case False
    have "roster_ok cfg (s\<lparr>dispatches := (dispatches s)[k := ?d\<lparr>executionSettled := True, taskCompleted := True\<rparr>],
             settlements := settlements s @ handler_calls (d_task ?d) out\<rparr>)"
      by (rule roster_ok_flag [OF assms k,
            where x = "?d\<lparr>executionSettled := True, taskCompleted := True\<rparr>"]) simp_all
    with False \<open>k < length (dispatches s) \<and> \<not> callThrew ?d \<and> \<not> executionSettled ?d\<close> show ?thesis
      by (simp add: task_settles_def Let_def)
  qed
next
  case False
  with assms show ?thesis by (auto simp: task_settles_def)
qed

lemma roster_ok_timer_fires:
  assumes "roster_ok cfg s"
  shows "roster_ok cfg (timer_fires k s)"
proof (cases "k < length (dispatches s) \<and> \<not> callThrew (dispatches s ! k)
    \<and> \<not> taskCompleted (dispatches s ! k)")
  case True
  then have k: "k < length (dispatches s)" by simp
  let ?d = "dispatches s ! k"
  have "roster_ok cfg (s\<lparr>dispatches := (dispatches s)[k := ?d\<lparr>taskCompleted := True\<rparr>],
           settlements := settlements s @ [(d_task ?d, Rejected (TaskTimedOut (d_task ?d)))]\<rparr>)"
    by (rule roster_ok_flag [OF assms k, where x = "?d\<lparr>taskCompleted := True\<rparr>"]) simp_all
  with True show ?thesis
    by (simp add: timer_fires_def Let_def)
next
  case False
  with assms show ?thesis by (auto simp: timer_fires_def Let_def)
qed

lemma roster_ok_release:
  assumes ok: "roster_ok cfg s" and k: "k < length (dispatches s)"
    and c: "taskCompleted (dispatches s ! k)" and r: "\<not> released (dispatches s ! k)"
  shows "roster_ok cfg (release k s)"
    and "\<not> busy (objects (release k s) ! d_browser (dispatches s ! k))"
    and "pagesOpen (objects (release k s) ! d_browser (dispatches s ! k)) = pagesOpenBefore (dispatches s ! k)"
proof -
  let ?d = "dispatches s ! k" and ?x = "(dispatches s ! k)\<lparr>released := True\<rparr>"
  let ?b = "d_browser ?d"
  from k have mem: "?d \<in> set (dispatches s)" by simp
  with ok have lt: "?b < length (objects s)" and pb: "pagesOpenBefore ?d = 0"
    by (auto simp: roster_ok_def)
  have h: "\<And>i. holders ((dispatches s)[k := ?x]) i + (if ?b = i then 1 else 0) = holders (dispatches s) i"
    using k r by (intro holders_update_release) simp_all
  from h [of ?b] ok lt have h1: "holders (dispatches s) ?b = 1" and h0: "holders ((dispatches s)[k := ?x]) ?b = 0"
    by (auto simp: roster_ok_def)
  have hi: "\<And>i. i \<noteq> ?b \<Longrightarrow> holders ((dispatches s)[k := ?x]) i = holders (dispatches s) i"
  proof -
    fix i assume "i \<noteq> ?b"
    with h [of i] show "holders ((dispatches s)[k := ?x]) i = holders (dispatches s) i" by simp
  qed
  have ds: "\<forall>d\<in>set ((dispatches s)[k := ?x]). d_browser d < length (objects s) \<and> pagesOpenBefore d = 0
          \<and> (released d \<longrightarrow> taskCompleted d)"
  proof
    fix d assume "d \<in> set ((dispatches s)[k := ?x])"
    then have "d = ?x \<or> d \<in> set (dispatches s)"
      using set_update_subset_insert [of "dispatches s" k ?x] by auto
    then show "d_browser d < length (objects s) \<and> pagesOpenBefore d = 0 \<and> (released d \<longrightarrow> taskCompleted d)"
      using ok mem c by (auto simp: roster_ok_def)
  qed
  from ok lt h1 have p1: "pagesOpen (objects s ! ?b) = 1" by (simp add: roster_ok_def)
  show "roster_ok cfg (release k s)"
    using ok ds h0 h1 hi k lt
    by (auto simp: roster_ok_def release_def Let_def nth_list_update)
  show "\<not> busy (objects (release k s) ! ?b)"
    using lt by (simp add: release_def Let_def)
  show "pagesOpen (objects (release k s) ! ?b) = pagesOpenBefore ?d"
    using lt p1 pb by (simp add: release_def Let_def)
qed

lemma roster_ok_finally: "roster_ok cfg s \<Longrightarrow> roster_ok cfg (finally_handler cfg k s)"
  by (simp add: finally_handler_def roster_ok_release(1) roster_ok_processQueue)

lemma roster_ok_connection:
  assumes "roster_ok cfg s"
  shows "roster_ok cfg (s\<lparr>objects := (objects s)[r := (objects s ! r)\<lparr>isConnected := c\<rparr>]\<rparr>)"
proof (cases "r < length (objects s)")
  case True
  then have "\<And>i. pagesOpen ((objects s)[r := (objects s ! r)\<lparr>isConnected := c\<rparr>] ! i) = pagesOpen (objects s ! i)"
    and "\<And>i. busy ((objects s)[r := (objects s ! r)\<lparr>isConnected := c\<rparr>] ! i) = busy (objects s ! i)"
    by (simp_all add: nth_list_update)
  with assms show ?thesis by (simp add: roster_ok_def)
next
  case False
  with assms show ?thesis by (simp add: roster_ok_def)
qed

lemma roster_ok_disconnected: "roster_ok cfg s \<Longrightarrow> roster_ok cfg (disconnected cfg r s)"
  by (simp add: disconnected_def on_disconnected_def Let_def roster_ok_connection
      roster_ok_removeBrowserFromPool roster_ok_processQueue)

lemma roster_ok_killBrowser: "roster_ok cfg s \<Longrightarrow> roster_ok cfg (killBrowser cfg b rp ty s)"
  by (simp add: killBrowser_def Let_def roster_ok_removeBrowserFromPool split: option.split)

lemma roster_ok_queueTask:
  "roster_ok cfg s \<Longrightarrow> roster_ok cfg (snd (queueTaskWithRequirements cfg t r p s))"
proof -
  assume ok: "roster_ok cfg s"
  have "\<And>q. roster_ok cfg (s\<lparr>taskQueue := q\<rparr>)"
    using ok by (simp add: roster_ok_def)
  then show ?thesis
    using ok by (simp add: queueTaskWithRequirements_def Let_def split_beta roster_ok_processQueue)
qed

lemma roster_ok_close_settled: "roster_ok cfg s \<Longrightarrow> roster_ok cfg (close_settled c r ok s)"
proof -
  assume ok: "roster_ok cfg s"
  have "\<And>x. roster_ok cfg (s\<lparr>shutdowns := x\<rparr>)"
    using ok by (simp add: roster_ok_def)
  then show ?thesis
    using ok by (simp add: close_settled_def Let_def roster_ok_removeBrowserFromPool)
qed

lemma roster_ok_shutdown_resolves: "roster_ok cfg s \<Longrightarrow> roster_ok cfg (shutdown_resolves c s)"
  by (auto simp: shutdown_resolves_def Let_def roster_ok_def split: construction.split)

lemma roster_ok_launch_settles: "roster_ok cfg s \<Longrightarrow> roster_ok cfg (launch_settles cfg l f s)"
proof -
  assume ok: "roster_ok cfg s"
  have a: "\<And>x. roster_ok cfg (s\<lparr>launches := x\<rparr>)"
    using ok by (simp add: roster_ok_def)
  have b: "\<And>s c. roster_ok cfg (s\<lparr>construction := c\<rparr>) = roster_ok cfg s"
    by (simp add: roster_ok_def)
  show ?thesis
    using a ok by (simp add: launch_settles_def Let_def b roster_ok_launch_resolved roster_ok_processQueue
        split: option.split launch_origin.split)
qed

lemma roster_ok_step: "roster_ok cfg s \<Longrightarrow> roster_ok cfg (step cfg e s)"
  by (cases e) (simp_all add: roster_ok_queueTask roster_ok_killBrowser roster_ok_launch_settles
      roster_ok_disconnected roster_ok_task_settles roster_ok_timer_fires roster_ok_finally
      roster_ok_close_settled roster_ok_shutdown_resolves)

lemma run_Nil [simp]: "run cfg [] s = s"
  by (simp add: run_def)

lemma run_Cons [simp]: "run cfg (e # evs) s = run cfg evs (step cfg e s)"
  by (simp add: run_def)

lemma run_append [simp]: "run cfg (evs @ evs') s = run cfg evs' (run cfg evs s)"
  by (simp add: run_def)

lemma run_invariant:
  assumes "P s" and "\<And>e s. P s \<Longrightarrow> P (step cfg e s)"
  shows "P (run cfg evs s)"
  using assms(1) by (induction evs arbitrary: s) (simp_all add: assms(2))

lemma funpow_launch_fields [simp]:
  "objects ((launchBrowser cfg ty org ^^ n) s) = objects s"
  "browsers ((launchBrowser cfg ty org ^^ n) s) = browsers s"
  "taskQueue ((launchBrowser cfg ty org ^^ n) s) = taskQueue s"
  "shuttingDown ((launchBrowser cfg ty org ^^ n) s) = shuttingDown s"
  "dispatches ((launchBrowser cfg ty org ^^ n) s) = dispatches s"
  "settlements ((launchBrowser cfg ty org ^^ n) s) = settlements s"
  "shutdowns ((launchBrowser cfg ty org ^^ n) s) = shutdowns s"
  "construction ((launchBrowser cfg ty org ^^ n) s) = construction s"
  by (induction n) simp_all

lemma getBrowserPool_fields:
  assumes "getBrowserPool cfg = Inr s"
  shows "objects s = []" "browsers s = []" "taskQueue s = \<lparr>items = [], taskIdCounter = 0\<rparr>"
    "\<not> shuttingDown s" "dispatches s = []" "settlements s = []" "shutdowns s = []"
  using assms by (auto simp: getBrowserPool_def Let_def empty_pool_def split: if_splits)

lemma roster_ok_initial: "getBrowserPool cfg = Inr s \<Longrightarrow> roster_ok cfg s"
  by (simp add: roster_ok_def getBrowserPool_fields)

lemma roster_ok_run: "getBrowserPool cfg = Inr s \<Longrightarrow> roster_ok cfg (run cfg evs s)"
  by (rule run_invariant [where P = "roster_ok cfg"]) (simp_all add: roster_ok_initial roster_ok_step)

subsection \<open>The calls of the callers' callbacks\<close>

lemma settled_with_append [simp]:
  "settled_with (xs @ ys) t = settled_with xs t @ settled_with ys t"
  by (simp add: settled_with_def)

lemma settled_with_Nil [simp]: "settled_with [] t = []"
  by (simp add: settled_with_def)

lemma settled_with_single [simp]:
  "settled_with [(u, x)] t = (if u = t then [x] else [])"
  by (simp add: settled_with_def)

lemma settled_with_fresh: "t \<notin> fst ` set xs \<Longrightarrow> settled_with xs t = []"
  by (auto simp: settled_with_def filter_empty_conv)

lemma reject_all_eq:
  "reject_all xs calls = calls @ map (\<lambda>x. (item_id x, Rejected TaskCancelled)) xs"
  by (induction xs arbitrary: calls) simp_all

lemma settled_with_cancelled:
  "distinct (map item_id xs) \<Longrightarrow>
   settled_with (map (\<lambda>x. (item_id x, Rejected TaskCancelled)) xs) t
   = (if t \<in> item_id ` set xs then [Rejected TaskCancelled] else [])"
  by (induction xs) (auto simp: settled_with_def)

lemma in_set_update_distinct:
  assumes "distinct (map f xs)" and "k < length xs" and "y \<in> set (xs[k := x])"
  shows "y = x \<or> (y \<in> set xs \<and> f y \<noteq> f (xs ! k))"
proof -
  from assms(3) obtain j where j: "j < length xs" and y: "y = xs[k := x] ! j"
    by (auto simp: in_set_conv_nth)
  show ?thesis
  proof (cases "j = k")
    case True
    with j y show ?thesis by simp
  next
    case False
    with j y have yj: "y = xs ! j" by simp
    from assms(1) j assms(2) False have "map f xs ! j \<noteq> map f xs ! k"
      by (simp add: nth_eq_iff_index_eq del: nth_map)
    with j assms(2) yj show ?thesis by simp
  qed
qed

lemma distinct_map_update:
  "k < length xs \<Longrightarrow> f x = f (xs ! k) \<Longrightarrow> map f (xs[k := x]) = map f xs"
  by (simp add: map_update list_update_same_conv)

subsection \<open>The task invariant\<close>

lemma tasks_ok_cong:
  "taskQueue s' = taskQueue s \<Longrightarrow> dispatches s' = dispatches s \<Longrightarrow> settlements s' = settlements s \<Longrightarrow>
   tasks_ok s' = tasks_ok s"
  by (simp add: tasks_ok_def)

lemma tasks_ok_launchBrowser [simp]: "tasks_ok (launchBrowser cfg ty org s) = tasks_ok s"
  by (rule tasks_ok_cong) simp_all

lemma tasks_ok_launch_resolved [simp]: "tasks_ok (launch_resolved ty s) = tasks_ok s"
  by (rule tasks_ok_cong) simp_all

lemma tasks_ok_removeBrowserFromPool [simp]: "tasks_ok (removeBrowserFromPool r s) = tasks_ok s"
  by (rule tasks_ok_cong) simp_all

lemma tasks_ok_assign:
  assumes ok: "tasks_ok s" and xs: "items (taskQueue s) = x # rest"
  shows "tasks_ok (assign x b (s\<lparr>taskQueue := (taskQueue s)\<lparr>items := rest\<rparr>\<rparr>))"
proof -
  from ok xs have x: "item_id x < taskIdCounter (taskQueue s)"
      "settled_with (settlements s) (item_id x) = []"
      "item_id x \<notin> item_id ` set rest" "item_id x \<notin> d_task ` set (dispatches s)"
    by (auto simp: tasks_ok_def)
  from ok xs x show ?thesis
    by (auto simp: tasks_ok_def assign_def Let_def)
qed

lemma tasks_ok_processQueue:
  assumes "tasks_ok s"
  shows "tasks_ok (processQueue cfg s)"
proof (cases cfg s rule: processQueue_cases)
  case idle
  with assms show ?thesis by simp
next
  case (dispatch x rest b)
  show ?thesis
    unfolding dispatch(4) by (rule tasks_ok_assign [OF assms dispatch(2)])
next
  case (launch x rest)
  with assms show ?thesis by simp
qed

lemma tasks_ok_enqueue:
  assumes ok: "tasks_ok s"
  shows "tasks_ok (s\<lparr>taskQueue := snd (enqueue t p r (taskQueue s))\<rparr>)"
proof -
  let ?n = "taskIdCounter (taskQueue s)"
  let ?x = "\<lparr>task = t, priority = p, requirements = r, item_id = ?n\<rparr>"
  let ?q = "snd (enqueue t p r (taskQueue s))"
  have its: "set (items ?q) = insert ?x (set (items (taskQueue s)))"
    and cnt: "taskIdCounter ?q = Suc ?n"
    by (simp_all add: enqueue_def Let_def)
  from ok have fresh: "?n \<notin> item_id ` set (items (taskQueue s))"
    by (auto simp: tasks_ok_def)
  have "distinct (map item_id (items (taskQueue s) @ [?x]))"
    using ok fresh by (simp add: tasks_ok_def)
  then have "distinct (items (taskQueue s) @ [?x])"
    and "inj_on item_id (set (items (taskQueue s) @ [?x]))"
    by (simp_all only: distinct_map)
  then have dist: "distinct (map item_id (items ?q))"
    by (simp add: enqueue_def Let_def distinct_map)
  from ok have new: "settled_with (settlements s) ?n = []"
    by (simp add: tasks_ok_def)
  show ?thesis
    unfolding tasks_ok_def using ok its cnt dist new
    by (auto simp: tasks_ok_def less_Suc_eq)
qed

lemma tasks_ok_queueTask:
  assumes ok: "tasks_ok s"
  shows "tasks_ok (snd (queueTaskWithRequirements cfg t r p s))"
proof -
  have "\<And>t. tasks_ok (s\<lparr>taskQueue := snd (enqueue t p r (taskQueue s))\<rparr>)"
    by (rule tasks_ok_enqueue [OF ok])
  with ok show ?thesis
    by (simp add: queueTaskWithRequirements_def Let_def split_beta tasks_ok_processQueue)
qed

lemma tasks_ok_shutdown:
  assumes ok: "tasks_ok s"
  shows "tasks_ok (shutdown s)"
proof -
  let ?new = "map (\<lambda>x. (item_id x, Rejected TaskCancelled)) (items (taskQueue s))"
  from ok have d: "distinct (map item_id (items (taskQueue s)))"
    by (simp add: tasks_ok_def)
  have sw: "\<And>t. settled_with (settlements (shutdown s)) t
      = settled_with (settlements s) t
        @ (if t \<in> item_id ` set (items (taskQueue s)) then [Rejected TaskCancelled] else [])"
    by (simp add: shutdown_def reject_all_eq settled_with_cancelled [OF d])
  show ?thesis
    unfolding tasks_ok_def using ok
    by (auto simp: sw tasks_ok_def)
qed

lemma tasks_ok_update:
  assumes ok: "tasks_ok s" and k: "k < length (dispatches s)"
    and x: "d_task x = d_task (dispatches s ! k)"
    and new: "taskCompleted x = taskCompleted (dispatches s ! k) \<longrightarrow> new = []" "length new \<le> 1"
       "\<forall>c\<in>set new. fst c = d_task x"
    and c: "taskCompleted (dispatches s ! k) \<longrightarrow> taskCompleted x" "executionSettled x \<longrightarrow> taskCompleted x"
    and s': "taskQueue s' = taskQueue s" "dispatches s' = (dispatches s)[k := x]"
       "settlements s' = settlements s @ new"
  shows "tasks_ok s'"
proof -
  let ?d = "dispatches s ! k"
  from k have mem: "?d \<in> set (dispatches s)" by simp
  from ok have dist: "distinct (map d_task (dispatches s))" by (simp add: tasks_ok_def)
  have other: "\<And>t. t \<noteq> d_task x \<Longrightarrow> settled_with new t = []"
    using new(3) by (auto simp: settled_with_def filter_empty_conv)
  have short: "\<And>t. length (settled_with new t) \<le> 1"
  proof -
    fix t
    have "length (settled_with new t) \<le> length new"
      by (simp add: settled_with_def)
    with new(2) show "length (settled_with new t) \<le> 1" by simp
  qed
  have ds: "\<forall>d\<in>set ((dispatches s)[k := x]).
          d_task d < taskIdCounter (taskQueue s) \<and>
          d_task d \<notin> item_id ` set (items (taskQueue s)) \<and>
          (\<not> taskCompleted d \<longrightarrow> settled_with (settlements s @ new) (d_task d) = []) \<and>
          (executionSettled d \<longrightarrow> taskCompleted d)"
  proof
    fix d assume "d \<in> set ((dispatches s)[k := x])"
    from in_set_update_distinct [OF dist k this]
    consider "d = x" | "d \<in> set (dispatches s)" "d_task d \<noteq> d_task ?d" by auto
    then show "d_task d < taskIdCounter (taskQueue s) \<and>
          d_task d \<notin> item_id ` set (items (taskQueue s)) \<and>
          (\<not> taskCompleted d \<longrightarrow> settled_with (settlements s @ new) (d_task d) = []) \<and>
          (executionSettled d \<longrightarrow> taskCompleted d)"
    proof cases
      case 1
      with ok mem x new(1) c show ?thesis
        by (auto simp: tasks_ok_def)
    next
      case 2
      with ok x other [of "d_task d"] show ?thesis
        by (auto simp: tasks_ok_def)
    qed
  qed
  from ok mem have dk: "d_task ?d < taskIdCounter (taskQueue s)"
      "d_task ?d \<notin> item_id ` set (items (taskQueue s))"
    by (auto simp: tasks_ok_def)
  have items: "\<forall>y\<in>set (items (taskQueue s)). settled_with new (item_id y) = []"
  proof
    fix y assume "y \<in> set (items (taskQueue s))"
    with dk(2) x have "item_id y \<noteq> d_task x" by (metis image_eqI)
    then show "settled_with new (item_id y) = []" by (rule other)
  qed
  have big: "\<forall>t. taskIdCounter (taskQueue s) \<le> t \<longrightarrow> settled_with new t = []"
  proof (intro allI impI)
    fix t assume "taskIdCounter (taskQueue s) \<le> t"
    with dk(1) x have "t \<noteq> d_task x" by auto
    then show "settled_with new t = []" by (rule other)
  qed
  have le: "\<forall>t. length (settled_with (settlements s @ new) t) \<le> 1"
  proof
    fix t
    show "length (settled_with (settlements s @ new) t) \<le> 1"
    proof (cases "new = []")
      case True
      with ok show ?thesis by (simp add: tasks_ok_def)
    next
      case False
      show ?thesis
      proof (cases "t = d_task x")
        case True
        from \<open>new \<noteq> []\<close> new(1) c(1) have "\<not> taskCompleted ?d" by auto
        with ok mem have "settled_with (settlements s) (d_task ?d) = []"
          by (simp add: tasks_ok_def)
        with True x short [of t] show ?thesis by simp
      next
        case False
        with ok other [of t] show ?thesis by (simp add: tasks_ok_def)
      qed
    qed
  qed
  show ?thesis
    unfolding tasks_ok_def s'
    using ok ds items big le distinct_map_update [of k "dispatches s" d_task x, OF k x]
    by (simp add: tasks_ok_def x)
qed

lemma tasks_ok_task_settles:
  assumes ok: "tasks_ok s"
  shows "tasks_ok (task_settles k out s)"
proof (cases "k < length (dispatches s) \<and> \<not> callThrew (dispatches s ! k)
    \<and> \<not> executionSettled (dispatches s ! k)")
  case True
  then have k: "k < length (dispatches s)" by simp
  let ?d = "dispatches s ! k"
  from k have mem: "?d \<in> set (dispatches s)" by simp
  show ?thesis
  proof (cases "taskCompleted ?d")
    case True
    have "tasks_ok (s\<lparr>dispatches := (dispatches s)[k := ?d\<lparr>executionSettled := True\<rparr>]\<rparr>)"
      using True
      by (intro tasks_ok_update [OF ok k, where x = "?d\<lparr>executionSettled := True\<rparr>" and new = "[]"])
        simp_all
    with True \<open>k < length (dispatches s) \<and> \<not> callThrew ?d \<and> \<not> executionSettled ?d\<close> show ?thesis
      by (simp add: task_settles_def Let_def)
  next
    case False
    have "tasks_ok (s\<lparr>dispatches := (dispatches s)[k := ?d\<lparr>executionSettled := True, taskCompleted := True\<rparr>],
             settlements := settlements s @ handler_calls (d_task ?d) out\<rparr>)"
      using False
      by (intro tasks_ok_update [OF ok k,
            where x = "?d\<lparr>executionSettled := True, taskCompleted := True\<rparr>"
              and new = "handler_calls (d_task ?d) out"])
        (simp_all add: handler_calls_def split: task_outcome.split)
    with False \<open>k < length (dispatches s) \<and> \<not> callThrew ?d \<and> \<not> executionSettled ?d\<close> show ?thesis
      by (simp add: task_settles_def Let_def)
  qed
next
  case False
  with ok show ?thesis by (auto simp: task_settles_def)
qed

lemma tasks_ok_timer_fires:
  assumes ok: "tasks_ok s"
  shows "tasks_ok (timer_fires k s)"
proof (cases "k < length (dispatches s) \<and> \<not> callThrew (dispatches s ! k)
    \<and> \<not> taskCompleted (dispatches s ! k)")
  case True
  then have k: "k < length (dispatches s)" by simp
  let ?d = "dispatches s ! k"
  from k have mem: "?d \<in> set (dispatches s)" by simp
  with ok True have ne: "\<not> executionSettled ?d" by (auto simp: tasks_ok_def)
  have "tasks_ok (s\<lparr>dispatches := (dispatches s)[k := ?d\<lparr>taskCompleted := True\<rparr>],
           settlements := settlements s @ [(d_task ?d, Rejected (TaskTimedOut (d_task ?d)))]\<rparr>)"
    using True ne
    by (intro tasks_ok_update [OF ok k, where x = "?d\<lparr>taskCompleted := True\<rparr>"
          and new = "[(d_task ?d, Rejected (TaskTimedOut (d_task ?d)))]"]) simp_all
  with True show ?thesis
    by (simp add: timer_fires_def Let_def)
next
  case False
  with ok show ?thesis by (auto simp: timer_fires_def Let_def)
qed

lemma tasks_ok_release:
  assumes ok: "tasks_ok s" and k: "k < length (dispatches s)"
  shows "tasks_ok (release k s)"
proof -
  from k have "dispatches s ! k \<in> set (dispatches s)" by simp
  with ok have "executionSettled (dispatches s ! k) \<longrightarrow> taskCompleted (dispatches s ! k)"
    by (simp add: tasks_ok_def)
  then show ?thesis
    by (intro tasks_ok_update [OF ok k, where x = "(dispatches s ! k)\<lparr>released := True\<rparr>" and new = "[]"])
      (simp_all add: release_def Let_def)
qed

lemma tasks_ok_finally: "tasks_ok s \<Longrightarrow> tasks_ok (finally_handler cfg k s)"
  by (simp add: finally_handler_def tasks_ok_release tasks_ok_processQueue)

lemma tasks_ok_objects [simp]: "tasks_ok (s\<lparr>objects := x\<rparr>) = tasks_ok s"
  by (simp add: tasks_ok_def)

lemma tasks_ok_launches [simp]: "tasks_ok (s\<lparr>launches := x\<rparr>) = tasks_ok s"
  by (simp add: tasks_ok_def)

lemma tasks_ok_shutdowns [simp]: "tasks_ok (s\<lparr>shutdowns := x\<rparr>) = tasks_ok s"
  by (simp add: tasks_ok_def)

lemma tasks_ok_construction [simp]: "tasks_ok (s\<lparr>construction := x\<rparr>) = tasks_ok s"
  by (simp add: tasks_ok_def)

lemma tasks_ok_disconnected: "tasks_ok s \<Longrightarrow> tasks_ok (disconnected cfg r s)"
  by (simp add: disconnected_def on_disconnected_def Let_def tasks_ok_processQueue)

lemma tasks_ok_killBrowser: "tasks_ok s \<Longrightarrow> tasks_ok (killBrowser cfg b rp ty s)"
  by (simp add: killBrowser_def Let_def split: option.split)

lemma tasks_ok_close_settled: "tasks_ok s \<Longrightarrow> tasks_ok (close_settled c r ok s)"
  by (simp add: close_settled_def Let_def)

lemma tasks_ok_shutdown_resolves: "tasks_ok s \<Longrightarrow> tasks_ok (shutdown_resolves c s)"
  by (simp add: shutdown_resolves_def Let_def split: construction.split)

lemma tasks_ok_launch_settles: "tasks_ok s \<Longrightarrow> tasks_ok (launch_settles cfg l f s)"
  by (simp add: launch_settles_def Let_def tasks_ok_processQueue tasks_ok_shutdown
      split: option.split launch_origin.split)

lemma tasks_ok_step: "tasks_ok s \<Longrightarrow> tasks_ok (step cfg e s)"
  by (cases e) (simp_all add: tasks_ok_queueTask tasks_ok_killBrowser tasks_ok_launch_settles
      tasks_ok_disconnected tasks_ok_task_settles tasks_ok_timer_fires tasks_ok_finally
      tasks_ok_close_settled tasks_ok_shutdown_resolves tasks_ok_shutdown)

lemma tasks_ok_initial: "getBrowserPool cfg = Inr s \<Longrightarrow> tasks_ok s"
  by (simp add: tasks_ok_def getBrowserPool_fields)

lemma tasks_ok_run: "getBrowserPool cfg = Inr s \<Longrightarrow> tasks_ok (run cfg evs s)"
  by (rule run_invariant [where P = tasks_ok]) (simp_all add: tasks_ok_initial tasks_ok_step)

subsection \<open>A settled promise stays as it is\<close>

lemma extends_calls_same: "settlements s' = settlements s \<Longrightarrow> extends_calls s s'"
  by (simp add: extends_calls_def)

lemma settlements_killBrowser [simp]: "settlements (killBrowser cfg b rp ty s) = settlements s"
  by (simp add: killBrowser_def Let_def split: option.split)

lemma settlements_disconnected [simp]: "settlements (disconnected cfg r s) = settlements s"
  by (simp add: disconnected_def on_disconnected_def Let_def)

lemma settlements_close_settled [simp]: "settlements (close_settled c r ok s) = settlements s"
  by (simp add: close_settled_def Let_def)

lemma settlements_shutdown_resolves [simp]: "settlements (shutdown_resolves c s) = settlements s"
  by (simp add: shutdown_resolves_def Let_def split: construction.split)

lemma settlements_queueTask [simp]:
  "settlements (snd (queueTaskWithRequirements cfg t r p s)) = settlements s"
  by (simp add: queueTaskWithRequirements_def Let_def split_beta)

lemma settlements_finally [simp]: "settlements (finally_handler cfg k s) = settlements s"
  by (simp add: finally_handler_def release_def Let_def)

lemma extends_calls_shutdown: "tasks_ok s \<Longrightarrow> extends_calls s (shutdown s)"
  by (auto simp: extends_calls_def shutdown_def reject_all_eq tasks_ok_def)

lemma extends_calls_launch_settles: "tasks_ok s \<Longrightarrow> extends_calls s (launch_settles cfg l f s)"
proof -
  assume ok: "tasks_ok s"
  have "\<And>x. extends_calls s (shutdown (s\<lparr>launches := x\<rparr>))"
    using ok by (auto simp: extends_calls_def shutdown_def reject_all_eq tasks_ok_def)
  then show ?thesis
    by (simp add: launch_settles_def Let_def extends_calls_same extends_calls_def
        split: option.split launch_origin.split)
qed

lemma unsettled_dispatch:
  assumes "tasks_ok s" and "k < length (dispatches s)" and "\<not> taskCompleted (dispatches s ! k)"
  shows "settled_with (settlements s) (d_task (dispatches s ! k)) = []
   \<and> \<not> executionSettled (dispatches s ! k)"
proof -
  from assms(2) have "dispatches s ! k \<in> set (dispatches s)" by simp
  with assms(1,3) show ?thesis by (auto simp: tasks_ok_def)
qed

lemma extends_calls_task_settles: "tasks_ok s \<Longrightarrow> extends_calls s (task_settles k out s)"
  by (auto simp: extends_calls_def task_settles_def Let_def handler_calls_def
      split: task_outcome.splits dest: unsettled_dispatch)

lemma extends_calls_timer_fires: "tasks_ok s \<Longrightarrow> extends_calls s (timer_fires k s)"
  by (auto simp: extends_calls_def timer_fires_def Let_def dest: unsettled_dispatch)

lemma extends_calls_step: "tasks_ok s \<Longrightarrow> extends_calls s (step cfg e s)"
  by (cases e) (simp_all add: extends_calls_same extends_calls_shutdown extends_calls_launch_settles
      extends_calls_task_settles extends_calls_timer_fires)

lemma settled_stays_step:
  assumes "tasks_ok s" and "settled_with (settlements s) t \<noteq> []"
  shows "settled_with (settlements (step cfg e s)) t = settled_with (settlements s) t"
proof -
  from extends_calls_step [OF assms(1), of cfg e] obtain new
    where new: "settlements (step cfg e s) = settlements s @ new"
      "\<forall>c\<in>set new. settled_with (settlements s) (fst c) = []"
    by (auto simp: extends_calls_def)
  with assms(2) have "t \<notin> fst ` set new" by auto
  then have "settled_with new t = []" by (rule settled_with_fresh)
  with new(1) show ?thesis by simp
qed

lemma settled_stays_run:
  "tasks_ok s \<Longrightarrow> settled_with (settlements s) t \<noteq> [] \<Longrightarrow>
   settled_with (settlements (run cfg evs s)) t = settled_with (settlements s) t"
proof (induction evs arbitrary: s)
  case Nil
  then show ?case by simp
next
  case (Cons e evs)
  from Cons.prems have eq: "settled_with (settlements (step cfg e s)) t = settled_with (settlements s) t"
    by (rule settled_stays_step)
  with Cons.prems have "settled_with (settlements (run cfg evs (step cfg e s))) t
      = settled_with (settlements (step cfg e s)) t"
    by (intro Cons.IH tasks_ok_step) simp_all
  with eq show ?case by simp
qed

subsection \<open>Dispatches that stay as they are\<close>

text \<open>
  A scheduler pass only adds dispatches.  A dispatch whose task call threw is never
  changed again, and a dispatch whose race has settled without a call of the caller's
  callbacks never gets one.
\<close>

lemma processQueue_appends: "\<exists>new. dispatches (processQueue cfg s) = dispatches s @ new"
  by (cases cfg s rule: processQueue_cases) (simp_all add: assign_def Let_def)

lemma processQueue_appends_to:
  "dispatches s' = dispatches s \<Longrightarrow> \<exists>new. dispatches (processQueue cfg s') = dispatches s @ new"
  using processQueue_appends [of cfg s'] by simp

lemma dispatches_killBrowser [simp]: "dispatches (killBrowser cfg b rp ty s) = dispatches s"
  by (simp add: killBrowser_def Let_def split: option.split)

lemma dispatches_close_settled [simp]: "dispatches (close_settled c r ok s) = dispatches s"
  by (simp add: close_settled_def Let_def)

lemma dispatches_shutdown_resolves [simp]: "dispatches (shutdown_resolves c s) = dispatches s"
  by (simp add: shutdown_resolves_def Let_def split: construction.split)

lemma disconnected_appends: "\<exists>new. dispatches (disconnected cfg r s) = dispatches s @ new"
  by (simp add: disconnected_def on_disconnected_def Let_def processQueue_appends_to)

lemma queueTask_appends:
  "\<exists>new. dispatches (snd (queueTaskWithRequirements cfg t r p s)) = dispatches s @ new"
  by (simp add: queueTaskWithRequirements_def Let_def split_beta processQueue_appends_to)

lemma launch_settles_appends:
  "\<exists>new. dispatches (launch_settles cfg l f s) = dispatches s @ new"
  by (simp add: launch_settles_def Let_def processQueue_appends_to
      split: option.split launch_origin.split)

lemma finally_appends:
  "\<exists>new. dispatches (finally_handler cfg k s)
     = (if k < length (dispatches s) \<and> \<not> callThrew (dispatches s ! k)
           \<and> taskCompleted (dispatches s ! k) \<and> \<not> released (dispatches s ! k)
        then (dispatches s)[k := (dispatches s ! k)\<lparr>released := True\<rparr>] else dispatches s) @ new"
proof (cases "k < length (dispatches s) \<and> \<not> callThrew (dispatches s ! k)
           \<and> taskCompleted (dispatches s ! k) \<and> \<not> released (dispatches s ! k)")
  case True
  have "dispatches (release k s) = (dispatches s)[k := (dispatches s ! k)\<lparr>released := True\<rparr>]"
    by (simp add: release_def Let_def)
  with processQueue_appends [of cfg "release k s"] True show ?thesis
    by (simp add: finally_handler_def)
next
  case False
  then have "finally_handler cfg k s = s" by (auto simp: finally_handler_def)
  with False show ?thesis by auto
qed

lemma thrown_dispatch_step:
  assumes k: "k < length (dispatches s)" and th: "callThrew (dispatches s ! k)"
  shows "k < length (dispatches (step cfg e s)) \<and> dispatches (step cfg e s) ! k = dispatches s ! k"
proof -
  have app: "k < length ds' \<and> ds' ! k = dispatches s ! k" if "\<exists>new. ds' = dispatches s @ new" for ds'
    using that k by (auto simp: nth_append)
  show ?thesis
  proof (cases e)
    case (Enqueue t r p)
    then show ?thesis using k app [OF queueTask_appends] by simp
  next
    case (KillBrowser b rp ty)
    then show ?thesis using k by simp
  next
    case Shutdown
    then show ?thesis using k by simp
  next
    case (LaunchSettles l f)
    then show ?thesis using app [OF launch_settles_appends] by simp
  next
    case (Disconnected r)
    then show ?thesis using app [OF disconnected_appends] by simp
  next
    case (TaskSettles k' out)
    then show ?thesis using k th by (auto simp: task_settles_def Let_def nth_list_update)
  next
    case (TimerFires k')
    then show ?thesis using k th by (auto simp: timer_fires_def Let_def nth_list_update)
  next
    case (Finally k')
    from finally_appends [of cfg k' s] obtain new where
      "dispatches (finally_handler cfg k' s)
     = (if k' < length (dispatches s) \<and> \<not> callThrew (dispatches s ! k')
           \<and> taskCompleted (dispatches s ! k') \<and> \<not> released (dispatches s ! k')
        then (dispatches s)[k' := (dispatches s ! k')\<lparr>released := True\<rparr>] else dispatches s) @ new"
      by blast
    with Finally k th show ?thesis by (auto simp: nth_append nth_list_update)
  next
    case (CloseSettled c r ok)
    then show ?thesis using k by simp
  next
    case (ShutdownResolves c)
    then show ?thesis using k by simp
  qed
qed

lemma thrown_dispatch_run:
  "k < length (dispatches s) \<Longrightarrow> callThrew (dispatches s ! k) \<Longrightarrow>
   k < length (dispatches (run cfg evs s)) \<and> dispatches (run cfg evs s) ! k = dispatches s ! k"
proof (induction evs arbitrary: s)
  case Nil
  then show ?case by simp
next
  case (Cons e evs)
  from thrown_dispatch_step [OF Cons.prems, of cfg e]
  have a: "k < length (dispatches (step cfg e s))" and b: "dispatches (step cfg e s) ! k = dispatches s ! k"
    by simp_all
  from b Cons.prems(2) have "callThrew (dispatches (step cfg e s) ! k)" by simp
  from Cons.IH [OF a this] b show ?case by simp
qed


lemma other_dispatch_other_task:
  assumes "tasks_ok s" and "k < length (dispatches s)" and "k' < length (dispatches s)" and "k' \<noteq> k"
  shows "d_task (dispatches s ! k') \<noteq> d_task (dispatches s ! k)"
proof -
  from assms(1) have "distinct (map d_task (dispatches s))" by (simp add: tasks_ok_def)
  with assms(2-4) have "map d_task (dispatches s) ! k' \<noteq> map d_task (dispatches s) ! k"
    by (simp add: nth_eq_iff_index_eq del: nth_map)
  with assms(2,3) show ?thesis by simp
qed

lemma shutdown_spares_dispatched:
  assumes "tasks_ok s" and "k < length (dispatches s)"
  shows "settled_with (settlements (shutdown s)) (d_task (dispatches s ! k))
     = settled_with (settlements s) (d_task (dispatches s ! k))"
proof -
  from assms(2) have "dispatches s ! k \<in> set (dispatches s)" by simp
  with assms(1) have "d_task (dispatches s ! k) \<notin> item_id ` set (items (taskQueue s))"
    and "distinct (map item_id (items (taskQueue s)))"
    by (simp_all add: tasks_ok_def)
  then show ?thesis
    by (simp add: shutdown_def reject_all_eq settled_with_cancelled)
qed

lemma unanswered_step:
  assumes ok: "tasks_ok s" and k: "k < length (dispatches s)" and c: "taskCompleted (dispatches s ! k)"
    and u: "settled_with (settlements s) (d_task (dispatches s ! k)) = []"
  shows "k < length (dispatches (step cfg e s)) \<and>
     d_task (dispatches (step cfg e s) ! k) = d_task (dispatches s ! k) \<and>
     taskCompleted (dispatches (step cfg e s) ! k) \<and>
     settled_with (settlements (step cfg e s)) (d_task (dispatches s ! k)) = []"
proof -
  have app: "k < length ds' \<and> ds' ! k = dispatches s ! k" if "\<exists>new. ds' = dispatches s @ new" for ds'
    using that k by (auto simp: nth_append)
  show ?thesis
  proof (cases e)
    case (Enqueue t r p)
    then show ?thesis using k c u app [OF queueTask_appends] by simp
  next
    case (KillBrowser b rp ty)
    then show ?thesis using k c u by simp
  next
    case Shutdown
    then show ?thesis using k c u shutdown_spares_dispatched [OF ok k] by simp
  next
    case (LaunchSettles l f)
    have "\<And>x. settled_with (settlements (shutdown (s\<lparr>launches := x\<rparr>))) (d_task (dispatches s ! k)) = []"
    proof -
      fix x
      from shutdown_spares_dispatched [of "s\<lparr>launches := x\<rparr>" k] ok k u
      show "settled_with (settlements (shutdown (s\<lparr>launches := x\<rparr>))) (d_task (dispatches s ! k)) = []"
        by simp
    qed
    then have "settled_with (settlements (launch_settles cfg l f s)) (d_task (dispatches s ! k)) = []"
      using u by (simp add: launch_settles_def Let_def split: option.split launch_origin.split)
    with LaunchSettles show ?thesis using c app [OF launch_settles_appends] by simp
  next
    case (Disconnected r)
    then show ?thesis using c u app [OF disconnected_appends] by simp
  next
    case (TaskSettles k' out)
    show ?thesis
    proof (cases "k' = k")
      case True
      with TaskSettles k c u show ?thesis by (simp add: task_settles_def Let_def)
    next
      case False
      have "settled_with (handler_calls (d_task (dispatches s ! k')) out) (d_task (dispatches s ! k)) = []"
        if "k' < length (dispatches s)"
        using other_dispatch_other_task [OF ok k that False]
        by (simp add: handler_calls_def split: task_outcome.split)
      with TaskSettles False k c u show ?thesis by (simp add: task_settles_def Let_def)
    qed
  next
    case (TimerFires k')
    show ?thesis
    proof (cases "k' = k")
      case True
      with TimerFires k c u show ?thesis by (simp add: timer_fires_def Let_def)
    next
      case False
      have "d_task (dispatches s ! k') \<noteq> d_task (dispatches s ! k)" if "k' < length (dispatches s)"
        by (rule other_dispatch_other_task [OF ok k that False])
      with TimerFires False k c u show ?thesis by (simp add: timer_fires_def Let_def)
    qed
  next
    case (Finally k')
    from finally_appends [of cfg k' s] obtain new where
      "dispatches (finally_handler cfg k' s)
     = (if k' < length (dispatches s) \<and> \<not> callThrew (dispatches s ! k')
           \<and> taskCompleted (dispatches s ! k') \<and> \<not> released (dispatches s ! k')
        then (dispatches s)[k' := (dispatches s ! k')\<lparr>released := True\<rparr>] else dispatches s) @ new"
      by blast
    with Finally k c u show ?thesis by (auto simp: nth_append nth_list_update)
  next
    case (CloseSettled c' r ok')
    then show ?thesis using k c u by simp
  next
    case (ShutdownResolves c')
    then show ?thesis using k c u by simp
  qed
qed

lemma unanswered_run:
  "tasks_ok s \<Longrightarrow> k < length (dispatches s) \<Longrightarrow> taskCompleted (dispatches s ! k) \<Longrightarrow>
   settled_with (settlements s) (d_task (dispatches s ! k)) = [] \<Longrightarrow>
   k < length (dispatches (run cfg evs s)) \<and>
   d_task (dispatches (run cfg evs s) ! k) = d_task (dispatches s ! k) \<and>
   taskCompleted (dispatches (run cfg evs s) ! k) \<and>
   settled_with (settlements (run cfg evs s)) (d_task (dispatches s ! k)) = []"
proof (induction evs arbitrary: s)
  case Nil
  then show ?case by simp
next
  case (Cons e evs)
  from unanswered_step [OF Cons.prems, of cfg e]
  have a: "k < length (dispatches (step cfg e s))"
    and b: "d_task (dispatches (step cfg e s) ! k) = d_task (dispatches s ! k)"
    and c: "taskCompleted (dispatches (step cfg e s) ! k)"
    and d: "settled_with (settlements (step cfg e s)) (d_task (dispatches s ! k)) = []"
    by simp_all
  from Cons.prems(1) have "tasks_ok (step cfg e s)" by (rule tasks_ok_step)
  from Cons.IH [OF this a c] b d show ?case by simp
qed

lemma holders_pos: "d \<in> set ds \<Longrightarrow> d_browser d = i \<Longrightarrow> \<not> released d \<Longrightarrow> 0 < holders ds i"
  by (auto simp: holders_def filter_empty_conv)

subsection \<open>The queue invariant\<close>

lemma queue_ok_processQueue:
  assumes "queue_ok (taskQueue s)"
  shows "queue_ok (taskQueue (processQueue cfg s))"
proof (cases cfg s rule: processQueue_cases)
  case idle
  with assms show ?thesis by simp
next
  case (dispatch x rest b)
  with assms show ?thesis by (simp add: queue_ok_def)
next
  case (launch x rest)
  with assms show ?thesis by simp
qed

lemma taskQueue_killBrowser [simp]: "taskQueue (killBrowser cfg b rp ty s) = taskQueue s"
  by (simp add: killBrowser_def Let_def split: option.split)

lemma taskQueue_close_settled [simp]: "taskQueue (close_settled c r ok s) = taskQueue s"
  by (simp add: close_settled_def Let_def)

lemma taskQueue_shutdown_resolves [simp]: "taskQueue (shutdown_resolves c s) = taskQueue s"
  by (simp add: shutdown_resolves_def Let_def split: construction.split)

lemma taskQueue_task_settles [simp]: "taskQueue (task_settles k out s) = taskQueue s"
  by (simp add: task_settles_def Let_def)

lemma taskQueue_timer_fires [simp]: "taskQueue (timer_fires k s) = taskQueue s"
  by (simp add: timer_fires_def Let_def)

lemma queue_ok_shutdown: "queue_ok (taskQueue s) \<Longrightarrow> queue_ok (taskQueue (shutdown s))"
  by (simp add: queue_ok_def)

lemma queue_ok_step:
  assumes "queue_ok (taskQueue s)"
  shows "queue_ok (taskQueue (step cfg e s))"
proof (cases e)
  case (Enqueue t r p)
  have "\<And>t. queue_ok (taskQueue (processQueue cfg (s\<lparr>taskQueue := snd (enqueue t p r (taskQueue s))\<rparr>)))"
    by (rule queue_ok_processQueue) (simp add: queue_ok_enqueue [OF assms])
  with assms Enqueue show ?thesis
    by (simp add: queueTaskWithRequirements_def Let_def split_beta)
next
  case (LaunchSettles l f)
  have "\<And>s'. taskQueue s' = taskQueue s \<Longrightarrow> queue_ok (taskQueue (processQueue cfg s'))"
    by (rule queue_ok_processQueue) (simp add: assms)
  moreover have "\<And>s'. taskQueue s' = taskQueue s \<Longrightarrow> queue_ok (taskQueue (shutdown s'))"
    by (rule queue_ok_shutdown) (simp add: assms)
  ultimately show ?thesis
    using assms LaunchSettles
    by (simp add: launch_settles_def Let_def split: option.split launch_origin.split)
next
  case (Disconnected r)
  have "\<And>s'. taskQueue s' = taskQueue s \<Longrightarrow> queue_ok (taskQueue (processQueue cfg s'))"
    by (rule queue_ok_processQueue) (simp add: assms)
  with assms Disconnected show ?thesis
    by (simp add: disconnected_def on_disconnected_def Let_def)
next
  case (Finally k)
  have "queue_ok (taskQueue (processQueue cfg (release k s)))"
    by (rule queue_ok_processQueue) (simp add: assms release_def Let_def)
  with assms Finally show ?thesis
    by (simp add: finally_handler_def)
qed (use assms in \<open>simp_all add: queue_ok_shutdown\<close>)

lemma queue_ok_run:
  assumes "getBrowserPool cfg = Inr s"
  shows "queue_ok (taskQueue (run cfg evs s))"
proof (rule run_invariant [where P = "\<lambda>s. queue_ok (taskQueue s)"])
  show "queue_ok (taskQueue s)"
    using assms by (simp add: getBrowserPool_fields queue_ok_def)
  show "\<And>e s. queue_ok (taskQueue s) \<Longrightarrow> queue_ok (taskQueue (step cfg e s))"
    by (rule queue_ok_step)
qed

subsection \<open>The browser types\<close>

lemma known_requiredType [simp]: "known_type (requiredType r)"
  by (simp add: known_type_def requiredType_def)

lemma types_ok_launchBrowser:
  "types_ok s \<Longrightarrow> known_type ty \<Longrightarrow> types_ok (launchBrowser cfg ty org s)"
  by (auto simp: types_ok_def launchBrowser_def Let_def known_type_def)

lemma types_ok_removeBrowserFromPool [simp]: "types_ok (removeBrowserFromPool r s) = types_ok s"
  by (simp add: types_ok_def)

lemma types_ok_shutdown [simp]: "types_ok (shutdown s) = types_ok s"
  by (simp add: types_ok_def)

lemma types_ok_object_update:
  assumes "types_ok s" and "browser_type x = browser_type (objects s ! b)"
    and "objects s' = (objects s)[b := x]" and "launches s' = launches s"
  shows "types_ok s'"
proof (cases "b < length (objects s)")
  case True
  then have "objects s ! b \<in> set (objects s)" by simp
  with assms(1,2) have "known_type (browser_type x)" by (simp add: types_ok_def)
  moreover have "set ((objects s)[b := x]) \<subseteq> insert x (set (objects s))"
    by (rule set_update_subset_insert)
  ultimately show ?thesis
    using assms by (auto simp: types_ok_def)
next
  case False
  with assms show ?thesis by (simp add: types_ok_def list_update_beyond)
qed

lemma types_ok_assign: "types_ok s \<Longrightarrow> types_ok (assign x b s)"
  by (rule types_ok_object_update [where b = b and x = "(objects s ! b)\<lparr>busy := True, pagesOpen := pagesOpen (objects s ! b) + 1\<rparr>"])
    (simp_all add: assign_def Let_def)

lemma types_ok_processQueue:
  assumes "types_ok s"
  shows "types_ok (processQueue cfg s)"
proof (cases cfg s rule: processQueue_cases)
  case idle
  with assms show ?thesis by simp
next
  case (dispatch x rest b)
  have "types_ok (s\<lparr>taskQueue := (taskQueue s)\<lparr>items := rest\<rparr>\<rparr>)"
    using assms by (simp add: types_ok_def)
  then show ?thesis unfolding dispatch(4) by (rule types_ok_assign)
next
  case (launch x rest)
  with assms show ?thesis by (simp add: types_ok_launchBrowser)
qed

lemma types_ok_release: "types_ok s \<Longrightarrow> types_ok (release k s)"
  by (rule types_ok_object_update [where b = "d_browser (dispatches s ! k)"
        and x = "(objects s ! d_browser (dispatches s ! k))\<lparr>pagesOpen := pagesOpen (objects s ! d_browser (dispatches s ! k)) - 1, busy := False\<rparr>"])
    (simp_all add: release_def Let_def)

lemma types_ok_disconnected:
  assumes "types_ok s"
  shows "types_ok (disconnected cfg r s)"
proof (cases "r < length (objects s) \<and> isConnected (objects s ! r)")
  case True
  let ?s = "s\<lparr>objects := (objects s)[r := (objects s ! r)\<lparr>isConnected := False\<rparr>]\<rparr>"
  have ok: "types_ok ?s"
    by (rule types_ok_object_update [OF assms, where b = r and x = "(objects s ! r)\<lparr>isConnected := False\<rparr>"])
      simp_all
  from True have "objects s ! r \<in> set (objects s)" by simp
  with assms have "known_type (browser_type (objects s ! r))" by (simp add: types_ok_def)
  with True have "known_type (browser_type (objects ?s ! r))" by simp
  with ok True show ?thesis
    by (simp add: disconnected_def on_disconnected_def Let_def types_ok_processQueue types_ok_launchBrowser)
next
  case False
  with assms show ?thesis by (auto simp: disconnected_def)
qed

lemma types_ok_killBrowser:
  assumes "types_ok s" and "roster_ok cfg s" and "plain_kill (KillBrowser b rp ty)"
  shows "types_ok (killBrowser cfg b rp ty s)"
proof (cases "find (\<lambda>x. x = b) (browsers s)")
  case None
  with assms show ?thesis by (simp add: killBrowser_def)
next
  case (Some r)
  then have "r \<in> set (browsers s)" by (auto dest: find_SomeD)
  with assms(2) have "objects s ! r \<in> set (objects s)" by (simp add: roster_ok_def)
  with assms(1) have "known_type (browser_type (objects s ! r))" by (simp add: types_ok_def)
  with assms(1,3) Some show ?thesis
    by (auto simp: killBrowser_def Let_def plain_kill_def types_ok_launchBrowser split: option.split)
qed

lemma types_ok_fields [simp]:
  "types_ok (s\<lparr>taskQueue := q\<rparr>) = types_ok s"
  "types_ok (s\<lparr>shutdowns := x\<rparr>) = types_ok s"
  "types_ok (s\<lparr>construction := c\<rparr>) = types_ok s"
  "types_ok (s\<lparr>dispatches := d\<rparr>) = types_ok s"
  "types_ok (s\<lparr>settlements := e\<rparr>) = types_ok s"
  by (simp_all add: types_ok_def)

lemma types_ok_launch_settles:
  assumes "types_ok s"
  shows "types_ok (launch_settles cfg l f s)"
proof (cases "l < length (launches s) \<and> \<not> launch_settled (launches s ! l)")
  case True
  let ?la = "launches s ! l"
  let ?s1 = "s\<lparr>launches := (launches s)[l := ?la\<lparr>launch_settled := True\<rparr>]\<rparr>"
  from True have "?la \<in> set (launches s)" by simp
  with assms have kt: "known_type (launch_type ?la)" by (simp add: types_ok_def)
  have "set ((launches s)[l := ?la\<lparr>launch_settled := True\<rparr>])
      \<subseteq> insert (?la\<lparr>launch_settled := True\<rparr>) (set (launches s))"
    by (rule set_update_subset_insert)
  with assms kt have s1: "types_ok ?s1" by (auto simp: types_ok_def)
  with kt have s2: "types_ok (launch_resolved (launch_type ?la) ?s1)"
    by (auto simp: types_ok_def)
  from True s1 s2 show ?thesis
    by (simp add: launch_settles_def Let_def types_ok_processQueue
        split: option.split launch_origin.split)
next
  case False
  with assms show ?thesis by (auto simp: launch_settles_def)
qed

lemma types_ok_step:
  assumes "types_ok s" and "roster_ok cfg s" and "plain_kill e"
  shows "types_ok (step cfg e s)"
proof (cases e)
  case (Enqueue t r p)
  with assms(1) show ?thesis
    by (simp add: queueTaskWithRequirements_def Let_def split_beta types_ok_processQueue)
next
  case (KillBrowser b rp ty)
  with assms show ?thesis by (simp add: types_ok_killBrowser)
next
  case (TaskSettles k out)
  with assms(1) show ?thesis by (simp add: task_settles_def Let_def)
next
  case (TimerFires k)
  with assms(1) show ?thesis by (simp add: timer_fires_def Let_def)
next
  case (Finally k)
  with assms(1) show ?thesis by (simp add: finally_handler_def types_ok_release types_ok_processQueue)
next
  case (CloseSettled c r ok)
  with assms(1) show ?thesis by (simp add: close_settled_def Let_def)
next
  case (ShutdownResolves c)
  with assms(1) show ?thesis by (simp add: shutdown_resolves_def Let_def split: construction.split)
qed (use assms(1) in \<open>simp_all add: types_ok_launch_settles types_ok_disconnected\<close>)

lemma launches_funpow:
  "launches ((launchBrowser cfg ty org ^^ n) s)
   = launches s @ replicate n \<lparr>launch_type = (if ty = ''adblock'' \<and> \<not> has_adblock_path cfg then ''default'' else ty),
                                origin = org, launch_settled = False\<rparr>"
  by (induction n) (simp_all add: launchBrowser_def Let_def replicate_append_same)

lemma types_ok_initial: "getBrowserPool cfg = Inr s \<Longrightarrow> types_ok s"
  by (auto simp: getBrowserPool_def Let_def types_ok_def launches_funpow empty_pool_def known_type_def
      split: if_splits)

lemma types_ok_run:
  "getBrowserPool cfg = Inr s \<Longrightarrow> list_all plain_kill evs \<Longrightarrow> types_ok (run cfg evs s)"
proof (induction evs rule: rev_induct)
  case Nil
  then show ?case by (simp add: types_ok_initial)
next
  case (snoc e evs)
  then show ?case by (simp add: types_ok_step roster_ok_run)
qed

subsection \<open>References to browser objects\<close>

lemma remove_first_eq_remove1:
  "\<forall>x\<in>set xs. P x = (x = r) \<Longrightarrow> remove_first P xs = remove1 r xs"
  by (induction xs) auto

lemma distinct_remove_first: "distinct xs \<Longrightarrow> distinct (remove_first P xs)"
proof (induction xs)
  case Nil
  then show ?case by simp
next
  case (Cons x xs)
  with set_remove_first [of P xs] show ?case by auto
qed

lemma removeBrowserFromPool_remove1:
  assumes "refs_ok s" and "r < length (objects s)"
  shows "browsers (removeBrowserFromPool r s) = remove1 r (browsers s)"
proof -
  have "\<forall>b\<in>set (browsers s). (browser_id (objects s ! b) = browser_id (objects s ! r)) = (b = r)"
    using assms by (auto simp: refs_ok_def)
  then show ?thesis
    by (simp add: removeBrowserFromPool_def remove_first_eq_remove1)
qed

lemma refs_ok_cong:
  "objects s' = objects s \<Longrightarrow> browsers s' = browsers s \<Longrightarrow> browserIdCounter s' = browserIdCounter s \<Longrightarrow>
   refs_ok s' = refs_ok s"
  by (simp add: refs_ok_def)

lemma browserIdCounter_fields [simp]:
  "browserIdCounter (launchBrowser cfg ty org s) = browserIdCounter s"
  "browserIdCounter (removeBrowserFromPool r s) = browserIdCounter s"
  "browserIdCounter (assign x b s) = browserIdCounter s"
  "browserIdCounter (shutdown s) = browserIdCounter s"
  "browserIdCounter (release k s) = browserIdCounter s"
  "browserIdCounter (launch_resolved ty s) = Suc (browserIdCounter s)"
  by (simp_all add: launchBrowser_def removeBrowserFromPool_def assign_def shutdown_def release_def
      launch_resolved_def Let_def)

lemma refs_ok_launchBrowser [simp]: "refs_ok (launchBrowser cfg ty org s) = refs_ok s"
  by (rule refs_ok_cong) simp_all

lemma refs_ok_shutdown [simp]: "refs_ok (shutdown s) = refs_ok s"
  by (rule refs_ok_cong) simp_all

lemma refs_ok_removeBrowserFromPool:
  assumes "refs_ok s"
  shows "refs_ok (removeBrowserFromPool r s)"
proof -
  have "set (browsers (removeBrowserFromPool r s)) \<subseteq> set (browsers s)"
    by (rule removeBrowserFromPool_browsers)
  moreover have "distinct (browsers (removeBrowserFromPool r s))"
    using assms by (simp add: removeBrowserFromPool_def distinct_remove_first refs_ok_def)
  ultimately show ?thesis
    using assms by (auto simp: refs_ok_def)
qed

lemma refs_ok_launch_resolved: "refs_ok s \<Longrightarrow> refs_ok (launch_resolved ty s)"
  by (auto simp: refs_ok_def nth_append less_Suc_eq)

text \<open>An update of an object that keeps its id and does not connect or disconnect it.\<close>

lemma refs_ok_object_update:
  assumes "refs_ok s" and "browser_id x = browser_id (objects s ! b)"
    and "isConnected x = isConnected (objects s ! b)"
    and "objects s' = (objects s)[b := x]" and "browsers s' = browsers s"
    and "browserIdCounter s' = browserIdCounter s"
  shows "refs_ok s'"
proof (cases "b < length (objects s)")
  case True
  then have "\<And>i. browser_id ((objects s)[b := x] ! i) = browser_id (objects s ! i)"
    and "\<And>i. isConnected ((objects s)[b := x] ! i) = isConnected (objects s ! i)"
    using assms(2,3) by (simp_all add: nth_list_update)
  with assms show ?thesis by (simp add: refs_ok_def)
next
  case False
  with assms show ?thesis by (simp add: refs_ok_def list_update_beyond)
qed

lemma refs_ok_assign: "refs_ok s \<Longrightarrow> refs_ok (assign x b s)"
  by (rule refs_ok_object_update [where b = b and x = "(objects s ! b)\<lparr>busy := True, pagesOpen := pagesOpen (objects s ! b) + 1\<rparr>"])
    (simp_all add: assign_def Let_def)

lemma refs_ok_release: "refs_ok s \<Longrightarrow> refs_ok (release k s)"
  by (rule refs_ok_object_update [where b = "d_browser (dispatches s ! k)"
        and x = "(objects s ! d_browser (dispatches s ! k))\<lparr>pagesOpen := pagesOpen (objects s ! d_browser (dispatches s ! k)) - 1, busy := False\<rparr>"])
    (simp_all add: release_def Let_def)

lemma refs_ok_fields [simp]:
  "refs_ok (s\<lparr>taskQueue := q\<rparr>) = refs_ok s"
  "refs_ok (s\<lparr>shutdowns := x\<rparr>) = refs_ok s"
  "refs_ok (s\<lparr>construction := c\<rparr>) = refs_ok s"
  "refs_ok (s\<lparr>dispatches := d\<rparr>) = refs_ok s"
  "refs_ok (s\<lparr>settlements := e\<rparr>) = refs_ok s"
  "refs_ok (s\<lparr>launches := l\<rparr>) = refs_ok s"
  by (simp_all add: refs_ok_def)

lemma refs_ok_processQueue:
  assumes "refs_ok s"
  shows "refs_ok (processQueue cfg s)"
proof (cases cfg s rule: processQueue_cases)
  case idle
  with assms show ?thesis by simp
next
  case (dispatch x rest b)
  have "refs_ok (s\<lparr>taskQueue := (taskQueue s)\<lparr>items := rest\<rparr>\<rparr>)"
    using assms by simp
  then show ?thesis unfolding dispatch(4) by (rule refs_ok_assign)
next
  case (launch x rest)
  with assms show ?thesis by simp
qed

text \<open>A browser that disconnects leaves the roster in the same step.\<close>

lemma refs_ok_disconnected:
  assumes "refs_ok s"
  shows "refs_ok (disconnected cfg r s)"
proof (cases "r < length (objects s) \<and> isConnected (objects s ! r)")
  case True
  let ?s = "s\<lparr>objects := (objects s)[r := (objects s ! r)\<lparr>isConnected := False\<rparr>]\<rparr>"
  have ids: "\<forall>i<length (objects ?s). browser_id (objects ?s ! i) = i"
    using assms True by (auto simp: refs_ok_def nth_list_update)
  have eq: "remove_first (\<lambda>b. browser_id (objects ?s ! b) = browser_id (objects ?s ! r)) (browsers s)
      = remove1 r (browsers s)"
    using assms ids True by (intro remove_first_eq_remove1) (auto simp: refs_ok_def)
  have "refs_ok (removeBrowserFromPool r ?s)"
    using assms True ids eq
    by (auto simp: refs_ok_def removeBrowserFromPool_def nth_list_update)
  with True show ?thesis
    by (simp add: disconnected_def on_disconnected_def Let_def refs_ok_processQueue)
next
  case False
  with assms show ?thesis by (auto simp: disconnected_def)
qed

lemma refs_ok_step:
  assumes "refs_ok s"
  shows "refs_ok (step cfg e s)"
proof (cases e)
  case (Enqueue t r p)
  with assms show ?thesis
    by (simp add: queueTaskWithRequirements_def Let_def split_beta refs_ok_processQueue)
next
  case (KillBrowser b rp ty)
  with assms show ?thesis
    by (simp add: killBrowser_def Let_def refs_ok_removeBrowserFromPool split: option.split)
next
  case Shutdown
  with assms show ?thesis by simp
next
  case (LaunchSettles l f)
  with assms show ?thesis
    by (simp add: launch_settles_def Let_def refs_ok_launch_resolved refs_ok_processQueue
        split: option.split launch_origin.split)
next
  case (Disconnected r)
  with assms show ?thesis by (simp add: refs_ok_disconnected)
next
  case (TaskSettles k out)
  with assms show ?thesis by (simp add: task_settles_def Let_def)
next
  case (TimerFires k)
  with assms show ?thesis by (simp add: timer_fires_def Let_def)
next
  case (Finally k)
  with assms show ?thesis by (simp add: finally_handler_def refs_ok_release refs_ok_processQueue)
next
  case (CloseSettled c r ok)
  with assms show ?thesis by (simp add: close_settled_def Let_def refs_ok_removeBrowserFromPool)
next
  case (ShutdownResolves c)
  with assms show ?thesis by (simp add: shutdown_resolves_def Let_def split: construction.split)
qed

lemma browserIdCounter_funpow [simp]:
  "browserIdCounter ((launchBrowser cfg ty org ^^ n) s) = browserIdCounter s"
  by (induction n) simp_all

lemma refs_ok_run: "getBrowserPool cfg = Inr s \<Longrightarrow> refs_ok (run cfg evs s)"
proof (rule run_invariant [where P = refs_ok])
  assume "getBrowserPool cfg = Inr s"
  then show "refs_ok s"
    by (auto simp: getBrowserPool_def Let_def refs_ok_def empty_pool_def split: if_splits)
next
  show "\<And>e s. refs_ok s \<Longrightarrow> refs_ok (step cfg e s)" by (rule refs_ok_step)
qed

subsection \<open>A shutdown with no launch under way\<close>

lemma set_minus_remove1: "set xs - {r} \<subseteq> set (remove1 r xs)"
  by (induction xs) auto

lemma processQueue_shuttingDown: "shuttingDown s \<Longrightarrow> processQueue cfg s = s"
  by (simp add: processQueue_def)

lemma winding_down_shrink:
  assumes "winding_down c s" and "set (browsers s') \<subseteq> set (browsers s)"
    and "shuttingDown s' = shuttingDown s" and "taskQueue s' = taskQueue s"
    and "launches s' = launches s" and "shutdowns s' = shutdowns s"
  shows "winding_down c s'"
  using assms by (auto simp: winding_down_def)

lemma winding_down_step:
  assumes wd: "winding_down c s" and ok: "refs_ok s"
  shows "winding_down c (step cfg e s)"
proof (cases e)
  case (Enqueue t r p)
  with wd show ?thesis
    by (simp add: queueTaskWithRequirements_def winding_down_def)
next
  case (KillBrowser b rp ty)
  have "winding_down c (removeBrowserFromPool r s)" for r
    by (rule winding_down_shrink [OF wd]) (simp_all add: removeBrowserFromPool_browsers)
  with wd KillBrowser show ?thesis
    by (simp add: killBrowser_def Let_def winding_down_def [of c s] split: option.split)
next
  case Shutdown
  with wd show ?thesis
    by (auto simp: winding_down_def shutdown_def reject_all_eq nth_append)
next
  case (LaunchSettles l f)
  from wd have "l < length (launches s) \<Longrightarrow> launch_settled (launches s ! l)"
    by (simp add: winding_down_def)
  with wd LaunchSettles show ?thesis
    by (auto simp: launch_settles_def)
next
  case (Disconnected r)
  let ?s = "s\<lparr>objects := (objects s)[r := (objects s ! r)\<lparr>isConnected := False\<rparr>]\<rparr>"
  have "winding_down c (removeBrowserFromPool r ?s)"
    by (rule winding_down_shrink [OF wd])
      (use removeBrowserFromPool_browsers [of r ?s] in simp_all)
  with wd Disconnected show ?thesis
    by (simp add: disconnected_def on_disconnected_def Let_def winding_down_def [of c s])
next
  case (TaskSettles k out)
  with wd show ?thesis
    by (simp add: task_settles_def Let_def winding_down_def)
next
  case (TimerFires k)
  with wd show ?thesis
    by (simp add: timer_fires_def Let_def winding_down_def)
next
  case (Finally k)
  have "shuttingDown (release k s)" using wd by (simp add: release_def Let_def winding_down_def)
  then have "processQueue cfg (release k s) = release k s" by (rule processQueue_shuttingDown)
  moreover have "winding_down c (release k s)"
    by (rule winding_down_shrink [OF wd]) (simp_all add: release_def Let_def)
  ultimately show ?thesis using wd Finally by (simp add: finally_handler_def)
next
  case (CloseSettled c' r okay)
  show ?thesis
  proof (cases "c' < length (shutdowns s) \<and> r \<in> set (closing (shutdowns s ! c')) \<and> r < length (objects s)
         \<and> (okay \<longrightarrow> \<not> isConnected (objects s ! r))")
    case False
    with wd CloseSettled show ?thesis by (auto simp: close_settled_def)
  next
    case True
    let ?sc = "shutdowns s ! c'"
    let ?s1 = "s\<lparr>shutdowns := (shutdowns s)[c' := ?sc\<lparr>closing := remove1 r (closing ?sc)\<rparr>]\<rparr>"
    let ?s2 = "if okay then ?s1 else removeBrowserFromPool r ?s1"
    have res: "step cfg e s = ?s2"
      using True CloseSettled by (simp add: close_settled_def Let_def)
    have gone: "r \<notin> set (browsers ?s2)"
    proof (cases okay)
      case True
      with \<open>c' < length (shutdowns s) \<and> r \<in> set (closing (shutdowns s ! c')) \<and> r < length (objects s)
         \<and> (okay \<longrightarrow> \<not> isConnected (objects s ! r))\<close>
      have "\<not> isConnected (objects s ! r)" by simp
      with ok have "r \<notin> set (browsers s)" by (auto simp: refs_ok_def)
      with True show ?thesis by simp
    next
      case False
      have "refs_ok ?s1" using ok by simp
      from removeBrowserFromPool_remove1 [OF this] True
      have "browsers (removeBrowserFromPool r ?s1) = remove1 r (browsers s)" by simp
      moreover from ok have "distinct (browsers s)" by (simp add: refs_ok_def)
      ultimately show ?thesis using False by simp
    qed
    have sub: "set (browsers ?s2) \<subseteq> set (browsers s)"
      using removeBrowserFromPool_browsers [of r ?s1] by auto
    have cl: "set (closing (shutdowns s ! c)) - {r} \<subseteq> set (remove1 r (closing (shutdowns s ! c)))"
      by (rule set_minus_remove1)
    have "winding_down c ?s2"
    proof (cases "c' = c")
      case True
      with wd \<open>c' < length (shutdowns s) \<and> r \<in> set (closing (shutdowns s ! c')) \<and> r < length (objects s)
         \<and> (okay \<longrightarrow> \<not> isConnected (objects s ! r))\<close>
      have open_: "\<not> shutdown_resolved (shutdowns s ! c)"
        by (auto simp: winding_down_def)
      from wd have "set (browsers s) \<subseteq> set (closing (shutdowns s ! c))" by (simp add: winding_down_def)
      with gone sub cl have "set (browsers ?s2) \<subseteq> set (remove1 r (closing (shutdowns s ! c)))"
        by blast
      with wd True open_ show ?thesis
        by (auto simp: winding_down_def)
    next
      case False
      with wd sub show ?thesis
        by (auto simp: winding_down_def)
    qed
    with res show ?thesis by simp
  qed
next
  case (ShutdownResolves c')
  with wd show ?thesis
    by (auto simp: shutdown_resolves_def Let_def winding_down_def nth_list_update
        split: construction.split)
qed

lemma winding_down_run:
  "winding_down c s \<Longrightarrow> refs_ok s \<Longrightarrow> winding_down c (run cfg evs s)"
  by (induction evs arbitrary: s) (simp_all add: winding_down_step refs_ok_step)

lemma closed_step:
  assumes "shuttingDown s \<and> items (taskQueue s) = []"
  shows "shuttingDown (step cfg e s) \<and> items (taskQueue (step cfg e s)) = []"
proof (cases e)
  case (Enqueue t r p)
  with assms show ?thesis by (simp add: queueTaskWithRequirements_def)
next
  case (KillBrowser b rp ty)
  with assms show ?thesis by (simp add: killBrowser_def Let_def split: option.split)
next
  case Shutdown
  with assms show ?thesis by simp
next
  case (LaunchSettles l f)
  with assms show ?thesis
    by (simp add: launch_settles_def Let_def processQueue_shuttingDown
        split: option.split launch_origin.split)
next
  case (Disconnected r)
  with assms show ?thesis by (simp add: disconnected_def on_disconnected_def Let_def)
next
  case (TaskSettles k out)
  with assms show ?thesis by (simp add: task_settles_def Let_def)
next
  case (TimerFires k)
  with assms show ?thesis by (simp add: timer_fires_def Let_def)
next
  case (Finally k)
  from assms have "shuttingDown (release k s)" by (simp add: release_def Let_def)
  then have "processQueue cfg (release k s) = release k s" by (rule processQueue_shuttingDown)
  with assms Finally show ?thesis by (simp add: finally_handler_def release_def Let_def)
next
  case (CloseSettled c r ok)
  with assms show ?thesis by (simp add: close_settled_def Let_def)
next
  case (ShutdownResolves c)
  with assms show ?thesis by (simp add: shutdown_resolves_def Let_def split: construction.split)
qed

lemma closed_run:
  "shuttingDown s \<and> items (taskQueue s) = [] \<Longrightarrow>
   shuttingDown (run cfg evs s) \<and> items (taskQueue (run cfg evs s)) = []"
  by (induction evs arbitrary: s) (simp_all add: closed_step)

text \<open>
  A call of \<^verbatim>\<open>shutdown\<close> on a pool in use: a task that is queued had no settlement and
  is rejected as cancelled, once and for good; from then on the queue is empty and every
  enqueue is rejected without touching the pool.
\<close>

lemma shutdown_drains_queue:
  assumes "getBrowserPool cfg = Inr s0" and "construction (run cfg evs s0) = Ready"
    and "x \<in> set (items (taskQueue (run cfg evs s0)))"
  shows "settled_with (settlements (run cfg evs s0)) (item_id x) = []
     \<and> settled_with (settlements (run cfg (evs @ Shutdown # later) s0)) (item_id x) = [Rejected TaskCancelled]
     \<and> items (taskQueue (run cfg (evs @ Shutdown # later) s0)) = []
     \<and> (\<forall>t r p. queueTaskWithRequirements cfg t r p (run cfg (evs @ Shutdown # later) s0)
           = (AlreadyRejected ShuttingDownNoNewTasks, run cfg (evs @ Shutdown # later) s0))"
proof -
  let ?s = "run cfg evs s0"
  let ?s1 = "step cfg Shutdown ?s"
  have ok: "tasks_ok ?s" by (rule tasks_ok_run [OF assms(1)])
  with assms(3) have none: "settled_with (settlements ?s) (item_id x) = []"
    and d: "distinct (map item_id (items (taskQueue ?s)))"
    by (simp_all add: tasks_ok_def)
  have one: "settled_with (settlements ?s1) (item_id x) = [Rejected TaskCancelled]"
    using assms(2,3) none by (simp add: shutdown_def reject_all_eq settled_with_cancelled [OF d])
  have "settled_with (settlements (run cfg later ?s1)) (item_id x) = settled_with (settlements ?s1) (item_id x)"
    using one by (intro settled_stays_run tasks_ok_step ok) simp
  with one have a: "settled_with (settlements (run cfg (evs @ Shutdown # later) s0)) (item_id x)
      = [Rejected TaskCancelled]"
    by simp
  have "shuttingDown ?s1 \<and> items (taskQueue ?s1) = []"
    using assms(2) by simp
  then have "shuttingDown (run cfg later ?s1) \<and> items (taskQueue (run cfg later ?s1)) = []"
    by (rule closed_run)
  then have b: "shuttingDown (run cfg (evs @ Shutdown # later) s0)"
    and c: "items (taskQueue (run cfg (evs @ Shutdown # later) s0)) = []"
    by simp_all
  from b have "\<forall>t r p. queueTaskWithRequirements cfg t r p (run cfg (evs @ Shutdown # later) s0)
           = (AlreadyRejected ShuttingDownNoNewTasks, run cfg (evs @ Shutdown # later) s0)"
    by (simp add: queueTaskWithRequirements_def)
  with none a c show ?thesis by blast
qed

text \<open>
  When \<^verbatim>\<open>shutdown\<close> is called while no launch is under way, the roster is empty
  once that call has resolved, and so is the queue.
\<close>

lemma shutdown_closes_all_browsers:
  assumes "getBrowserPool cfg = Inr s0" and "construction (run cfg evs s0) = Ready"
    and "list_all launch_settled (launches (run cfg evs s0))"
    and "shutdown_resolved (shutdowns (run cfg (evs @ Shutdown # later) s0) ! length (shutdowns (run cfg evs s0)))"
  shows "totalBrowsers (getStats (run cfg (evs @ Shutdown # later) s0)) = 0
     \<and> queuedTasks (getStats (run cfg (evs @ Shutdown # later) s0)) = 0"
proof -
  let ?s = "run cfg evs s0"
  let ?c = "length (shutdowns ?s)"
  let ?s' = "run cfg (evs @ Shutdown # later) s0"
  have ok: "refs_ok ?s" by (rule refs_ok_run [OF assms(1)])
  have eq: "?s' = run cfg later (shutdown ?s)"
    using assms(2) by simp
  have "winding_down ?c (shutdown ?s)"
    using assms(3) by (simp add: winding_down_def shutdown_def list_all_iff)
  moreover have "refs_ok (shutdown ?s)" using ok by simp
  ultimately have "winding_down ?c (run cfg later (shutdown ?s))" by (rule winding_down_run)
  then have "winding_down ?c ?s'" by (simp only: eq)
  with assms(2,4) have "browsers ?s' = []" and "items (taskQueue ?s') = []"
    by (auto simp: winding_down_def)
  with assms(2) show ?thesis
    by (simp add: getStats_def queue_length_def)
qed

lemma torn_down_step:
  assumes "torn_down c msg s"
  shows "torn_down c msg (step cfg e s)"
proof (cases e)
  case (Enqueue t r p)
  with assms show ?thesis by (auto simp: torn_down_def)
next
  case (KillBrowser b rp ty)
  with assms show ?thesis by (auto simp: torn_down_def)
next
  case Shutdown
  with assms show ?thesis by (auto simp: torn_down_def)
next
  case (LaunchSettles l f)
  with assms show ?thesis
    by (auto simp: torn_down_def launch_settles_def Let_def split: option.split launch_origin.split)
next
  case (Disconnected r)
  with assms show ?thesis by (simp add: torn_down_def disconnected_def on_disconnected_def Let_def)
next
  case (TaskSettles k out)
  with assms show ?thesis by (simp add: torn_down_def task_settles_def Let_def)
next
  case (TimerFires k)
  with assms show ?thesis by (simp add: torn_down_def timer_fires_def Let_def)
next
  case (Finally k)
  with assms show ?thesis by (simp add: torn_down_def finally_handler_def release_def Let_def)
next
  case (CloseSettled c' r ok)
  with assms show ?thesis
    by (auto simp: torn_down_def close_settled_def Let_def nth_list_update)
next
  case (ShutdownResolves c')
  with assms show ?thesis
    by (auto simp: torn_down_def shutdown_resolves_def Let_def nth_list_update split: if_splits)
qed

lemma torn_down_run: "torn_down c msg s \<Longrightarrow> torn_down c msg (run cfg evs s)"
  by (induction evs arbitrary: s) (simp_all add: torn_down_step)

text \<open>
  When a warm-up launch fails after all other launches have settled, the roster is empty
  once the constructor has thrown, and what it throws carries the message of that
  failure.
\<close>

lemma failed_construction_closes_settled_launches:
  assumes "getBrowserPool cfg = Inr s0" and "construction (run cfg evs s0) = Constructing"
    and "l < length (launches (run cfg evs s0))" and "origin (launches (run cfg evs s0) ! l) = WarmUp"
    and "\<not> launch_settled (launches (run cfg evs s0) ! l)"
    and "list_all launch_settled (take l (launches (run cfg evs s0)) @ drop (Suc l) (launches (run cfg evs s0)))"
    and "construction (run cfg (evs @ LaunchSettles l (Some msg) # later) s0) = Failed e"
  shows "e = InitializationFailed msg \<and> browsers (run cfg (evs @ LaunchSettles l (Some msg) # later) s0) = []"
proof -
  let ?s = "run cfg evs s0"
  let ?c = "length (shutdowns ?s)"
  let ?s1 = "step cfg (LaunchSettles l (Some msg)) ?s"
  let ?s' = "run cfg later ?s1"
  have ok: "refs_ok ?s" by (rule refs_ok_run [OF assms(1)])
  have s1: "?s1 = (shutdown (?s\<lparr>launches := (launches ?s)[l := (launches ?s ! l)\<lparr>launch_settled := True\<rparr>]\<rparr>))
      \<lparr>construction := TearingDown ?c msg\<rparr>"
    using assms(2-5) by (simp add: launch_settles_def Let_def)
  have "\<forall>x\<in>set ((launches ?s)[l := (launches ?s ! l)\<lparr>launch_settled := True\<rparr>]). launch_settled x"
    using assms(3,6) by (auto simp: upd_conv_take_nth_drop list_all_iff)
  then have wd: "winding_down ?c ?s1"
    unfolding s1 by (simp add: winding_down_def shutdown_def)
  have td: "torn_down ?c msg ?s1"
    unfolding s1 by (simp add: torn_down_def shutdown_def)
  have "refs_ok ?s1" using ok by (rule refs_ok_step)
  with wd have "winding_down ?c ?s'" by (rule winding_down_run)
  moreover from td have "torn_down ?c msg ?s'" by (rule torn_down_run)
  moreover have "construction ?s' = Failed e" using assms(7) by simp
  ultimately have "e = InitializationFailed msg \<and> browsers ?s' = []"
    by (auto simp: winding_down_def torn_down_def)
  then show ?thesis by simp
qed

lemma shutdown_drains_queue_example:
  "getBrowserPool one_default = Inr (projr (getBrowserPool one_default)) \<and>
   construction (run one_default drain_trace (projr (getBrowserPool one_default))) = Ready \<and>
   map item_id (items (taskQueue (run one_default drain_trace (projr (getBrowserPool one_default))))) = [1, 2] \<and>
   settled_with (settlements (run one_default (drain_trace @ Shutdown # after_shutdown_trace)
        (projr (getBrowserPool one_default)))) 1 = [Rejected TaskCancelled]"
proof -
  let ?init = "projr (getBrowserPool one_default)"
  let ?x = "\<lparr>task = Function Returns, priority = 4, requirements = \<lparr>use_adblock = False\<rparr>, item_id = 1\<rparr>"
  have h1: "getBrowserPool one_default = Inr ?init"
    by code_simp
  have h2: "construction (run one_default drain_trace ?init) = Ready"
    by code_simp
  have h3: "?x \<in> set (items (taskQueue (run one_default drain_trace ?init)))"
    by code_simp
  have i: "map item_id (items (taskQueue (run one_default drain_trace ?init))) = [1, 2]"
    by code_simp
  from shutdown_drains_queue [OF h1 h2 h3, of after_shutdown_trace] h1 h2 i show ?thesis
    by simp
qed

lemma shutdown_closes_all_browsers_example:
  "getBrowserPool one_default = Inr (projr (getBrowserPool one_default)) \<and>
   construction (run one_default drain_trace (projr (getBrowserPool one_default))) = Ready \<and>
   list_all launch_settled (launches (run one_default drain_trace (projr (getBrowserPool one_default)))) \<and>
   browsers (run one_default drain_trace (projr (getBrowserPool one_default))) = [0] \<and>
   shutdown_resolved (shutdowns (run one_default (drain_trace @ Shutdown # after_shutdown_trace)
      (projr (getBrowserPool one_default))) ! 0) \<and>
   totalBrowsers (getStats (run one_default (drain_trace @ Shutdown # after_shutdown_trace)
      (projr (getBrowserPool one_default)))) = 0"
proof -
  let ?init = "projr (getBrowserPool one_default)"
  have h1: "getBrowserPool one_default = Inr ?init"
    by code_simp
  have h2: "construction (run one_default drain_trace ?init) = Ready"
    by code_simp
  have h3: "list_all launch_settled (launches (run one_default drain_trace ?init))"
    by code_simp
  have n: "length (shutdowns (run one_default drain_trace ?init)) = 0"
    by code_simp
  have b: "browsers (run one_default drain_trace ?init) = [0]"
    by code_simp
  have h4: "shutdown_resolved (shutdowns (run one_default (drain_trace @ Shutdown # after_shutdown_trace) ?init) ! 0)"
    by code_simp
  then have "shutdown_resolved (shutdowns (run one_default (drain_trace @ Shutdown # after_shutdown_trace) ?init)
      ! length (shutdowns (run one_default drain_trace ?init)))"
    by (simp only: n)
  from shutdown_closes_all_browsers [OF h1 h2 h3 this] h1 h2 h3 h4 b show ?thesis
    by (intro conjI) simp_all
qed

lemma failed_construction_closes_settled_launches_example:
  "getBrowserPool default_and_adblock = Inr (projr (getBrowserPool default_and_adblock)) \<and>
   construction (run default_and_adblock [LaunchSettles 0 None] (projr (getBrowserPool default_and_adblock)))
     = Constructing \<and>
   browsers (run default_and_adblock [LaunchSettles 0 None] (projr (getBrowserPool default_and_adblock))) = [0] \<and>
   construction (run default_and_adblock ([LaunchSettles 0 None] @ LaunchSettles 1 (Some ''boom'') # teardown_trace)
      (projr (getBrowserPool default_and_adblock))) = Failed (InitializationFailed ''boom'') \<and>
   browsers (run default_and_adblock ([LaunchSettles 0 None] @ LaunchSettles 1 (Some ''boom'') # teardown_trace)
      (projr (getBrowserPool default_and_adblock))) = []"
proof -
  let ?init = "projr (getBrowserPool default_and_adblock)"
  let ?s = "run default_and_adblock [LaunchSettles 0 None] ?init"
  have h1: "getBrowserPool default_and_adblock = Inr ?init"
    by code_simp
  have h2: "construction ?s = Constructing"
    by code_simp
  have h3: "1 < length (launches ?s)"
    by code_simp
  have h4: "origin (launches ?s ! 1) = WarmUp"
    by code_simp
  have h5: "\<not> launch_settled (launches ?s ! 1)"
    by code_simp
  have h6: "list_all launch_settled (take 1 (launches ?s) @ drop (Suc 1) (launches ?s))"
    by code_simp
  have h7: "construction (run default_and_adblock ([LaunchSettles 0 None] @ LaunchSettles 1 (Some ''boom'') # teardown_trace) ?init)
      = Failed (InitializationFailed ''boom'')"
    by code_simp
  have b: "browsers ?s = [0]"
    by code_simp
  from failed_construction_closes_settled_launches [OF h1 h2 h3 h4 h5 h6 h7] h1 h2 h7 b show ?thesis
    by (intro conjI) simp_all
qed

section \<open>The claims\<close>

text \<open>
  Every theorem below that speaks of \<open>run cfg evs s0\<close> with
  \<open>getBrowserPool cfg = Inr s0\<close> holds in every state the pool can reach: \<open>evs\<close> is any
  sequence of calls of the facade, launch settlements, disconnections, task
  settlements, timers and handlers, in any order.
\<close>

subsection \<open>C1: the caps of the two kinds of browser\<close>

text \<open>
  Claim C1 says that the number of live \<^verbatim>\<open>default\<close> browsers never exceeds
  \<^verbatim>\<open>pool_size_default\<close> (and likewise for \<^verbatim>\<open>adblock\<close>).  The check
  \<^verbatim>\<open>totalOfType < maxOfType\<close> counts the browsers in the roster and not the launches
  that are under way, so two launches can be started for one free place.  With a cap
  of one: a task runs and a second one waits, the browser crashes; the
  \<^verbatim>\<open>disconnected\<close> handler starts a replacement and then calls \<^verbatim>\<open>_processQueue\<close>,
  which starts another launch for the waiting task.  Both resolve, and the pool that was
  built for one default browser holds two.
\<close>

theorem capacity_exceeded_after_crash:
  "pool_size_default one_default = 1 \<and>
   construction (run one_default crash_trace (projr (getBrowserPool one_default))) = Ready \<and>
   defaultBrowsers (getStats (run one_default crash_trace (projr (getBrowserPool one_default)))) = 2 \<and>
   \<not> defaultBrowsers (getStats (run one_default crash_trace (projr (getBrowserPool one_default))))
       \<le> pool_size_default one_default"
  by code_simp

subsection \<open>C2: a dispatched task's promise settles once\<close>

text \<open>
  What holds of every dispatch: the caller's callbacks are called at most once, and not
  before the race has settled.  When the call of the task returned and the race is open,
  then after the timer the single settlement is the rejection with the timeout error,
  after the task's success it is the resolution with its result, and after a failure
  with an error that has a message it is the rejection with that error.  \<open>later\<close> is any
  continuation, so a result that arrives after the timeout (or a timer that fires after
  the result, a shutdown, anything) adds no second settlement.
\<close>

lemma race_settles_promise_once:
  assumes "getBrowserPool cfg = Inr s0" and "k < length (dispatches (run cfg evs s0))"
  shows "length (settled_with (settlements (run cfg evs s0)) (d_task (dispatches (run cfg evs s0) ! k))) \<le> 1
    \<and> (\<not> taskCompleted (dispatches (run cfg evs s0) ! k) \<longrightarrow>
         settled_with (settlements (run cfg evs s0)) (d_task (dispatches (run cfg evs s0) ! k)) = [])
    \<and> (\<not> callThrew (dispatches (run cfg evs s0) ! k) \<and> \<not> taskCompleted (dispatches (run cfg evs s0) ! k) \<longrightarrow>
         (\<forall>later. settled_with (settlements (run cfg (evs @ TimerFires k # later) s0))
                    (d_task (dispatches (run cfg evs s0) ! k))
                  = [Rejected (TaskTimedOut (d_task (dispatches (run cfg evs s0) ! k)))]) \<and>
         (\<forall>v later. settled_with (settlements (run cfg (evs @ TaskSettles k (Fulfils v) # later) s0))
                    (d_task (dispatches (run cfg evs s0) ! k))
                  = [Resolved v]) \<and>
         (\<forall>m later. settled_with (settlements (run cfg (evs @ TaskSettles k (Fails m) # later) s0))
                    (d_task (dispatches (run cfg evs s0) ! k))
                  = [Rejected (TaskFailed m)]))"
proof -
  let ?s = "run cfg evs s0"
  let ?t = "d_task (dispatches ?s ! k)"
  have ok: "tasks_ok ?s" by (rule tasks_ok_run [OF assms(1)])
  then have len: "length (settled_with (settlements ?s) ?t) \<le> 1"
    by (simp add: tasks_ok_def)
  have first: "settled_with (settlements (run cfg (e # later) ?s)) ?t = [x]"
    if "settled_with (settlements (step cfg e ?s)) ?t = [x]" for e later x
  proof -
    have "settled_with (settlements (run cfg later (step cfg e ?s))) ?t
        = settled_with (settlements (step cfg e ?s)) ?t"
      using that by (intro settled_stays_run tasks_ok_step ok) simp
    with that show ?thesis by simp
  qed
  have pending: "\<not> taskCompleted (dispatches ?s ! k) \<Longrightarrow>
      settled_with (settlements ?s) ?t = [] \<and> \<not> executionSettled (dispatches ?s ! k)"
    by (rule unsettled_dispatch [OF ok assms(2)])
  have timer: "settled_with (settlements (run cfg (evs @ TimerFires k # later) s0)) ?t
      = [Rejected (TaskTimedOut ?t)]"
    if "\<not> callThrew (dispatches ?s ! k)" and "\<not> taskCompleted (dispatches ?s ! k)" for later
  proof -
    have "settled_with (settlements (step cfg (TimerFires k) ?s)) ?t = [Rejected (TaskTimedOut ?t)]"
      using that pending assms(2) by (simp add: timer_fires_def Let_def)
    from first [OF this] show ?thesis by simp
  qed
  have good: "settled_with (settlements (run cfg (evs @ TaskSettles k (Fulfils v) # later) s0)) ?t
      = [Resolved v]"
    if "\<not> callThrew (dispatches ?s ! k)" and "\<not> taskCompleted (dispatches ?s ! k)" for v later
  proof -
    have "settled_with (settlements (step cfg (TaskSettles k (Fulfils v)) ?s)) ?t = [Resolved v]"
      using that pending assms(2) by (simp add: task_settles_def handler_calls_def Let_def)
    from first [OF this] show ?thesis by simp
  qed
  have bad: "settled_with (settlements (run cfg (evs @ TaskSettles k (Fails m) # later) s0)) ?t
      = [Rejected (TaskFailed m)]"
    if "\<not> callThrew (dispatches ?s ! k)" and "\<not> taskCompleted (dispatches ?s ! k)" for m later
  proof -
    have "settled_with (settlements (step cfg (TaskSettles k (Fails m)) ?s)) ?t = [Rejected (TaskFailed m)]"
      using that pending assms(2) by (simp add: task_settles_def handler_calls_def Let_def)
    from first [OF this] show ?thesis by simp
  qed
  from len pending timer good bad show ?thesis
    by blast
qed

text \<open>
  A pool of one browser; task 0 is dispatched, its timer fires, and its result arrives
  only after the release, followed by another task and a shutdown.
\<close>

lemma race_settles_promise_once_example:
  "getBrowserPool one_default = Inr (projr (getBrowserPool one_default)) \<and>
   0 < length (dispatches (run one_default [LaunchSettles 0 None, plain_task 0] (projr (getBrowserPool one_default)))) \<and>
   \<not> callThrew (dispatches (run one_default [LaunchSettles 0 None, plain_task 0] (projr (getBrowserPool one_default))) ! 0) \<and>
   \<not> taskCompleted (dispatches (run one_default [LaunchSettles 0 None, plain_task 0] (projr (getBrowserPool one_default))) ! 0) \<and>
   d_task (dispatches (run one_default [LaunchSettles 0 None, plain_task 0] (projr (getBrowserPool one_default))) ! 0) = 0 \<and>
   settled_with (settlements (run one_default ([LaunchSettles 0 None, plain_task 0] @ TimerFires 0 # late_result_trace)
       (projr (getBrowserPool one_default)))) 0 = [Rejected (TaskTimedOut 0)]"
proof -
  let ?init = "projr (getBrowserPool one_default)"
  let ?evs = "[LaunchSettles 0 None, plain_task 0]"
  have h1: "getBrowserPool one_default = Inr ?init"
    by code_simp
  have h2: "0 < length (dispatches (run one_default ?evs ?init))"
    by code_simp
  have h3: "\<not> taskCompleted (dispatches (run one_default ?evs ?init) ! 0)"
    by code_simp
  have h4: "d_task (dispatches (run one_default ?evs ?init) ! 0) = 0"
    by code_simp
  have h5: "\<not> callThrew (dispatches (run one_default ?evs ?init) ! 0)"
    by code_simp
  from race_settles_promise_once [OF h1 h2] h3 h5
  have "\<forall>later. settled_with (settlements (run one_default (?evs @ TimerFires 0 # later) ?init))
                    (d_task (dispatches (run one_default ?evs ?init) ! 0))
                  = [Rejected (TaskTimedOut (d_task (dispatches (run one_default ?evs ?init) ! 0)))]"
    by blast
  then have "settled_with (settlements (run one_default (?evs @ TimerFires 0 # late_result_trace) ?init))
                    (d_task (dispatches (run one_default ?evs ?init) ! 0))
                  = [Rejected (TaskTimedOut (d_task (dispatches (run one_default ?evs ?init) ! 0)))]"
    by (rule spec)
  then have "settled_with (settlements (run one_default (?evs @ TimerFires 0 # late_result_trace) ?init)) 0
      = [Rejected (TaskTimedOut 0)]"
    by (simp only: h4)
  with h1 h2 h3 h4 h5 show ?thesis by (intro conjI)
qed

text \<open>
  Claim C2 says that the promise of every dispatched task settles exactly once.  There
  are two ways in which it never settles.  The \<^verbatim>\<open>catch\<close> handler of the race sets
  \<^verbatim>\<open>taskCompleted\<close> and then evaluates \<^verbatim>\<open>error.message.split\<close> for its log line before
  it calls \<^verbatim>\<open>queuedItem.reject(error)\<close>: when the task's promise is rejected with a
  value that has no string \<^verbatim>\<open>message\<close>, the handler throws there, \<^verbatim>\<open>reject\<close> is not
  called, and the timer, which tests \<^verbatim>\<open>taskCompleted\<close>, does not call it either.  And
  when the call of the task throws, the dispatch branch ends before it has made the timer
  and the race, so nothing is left that could call a callback of the task.  In both
  cases task 0 has been dispatched and none of its callbacks is called, whatever
  happens later.
\<close>

theorem caller_promise_never_settled:
  "0 < length (dispatches (run one_default (bare_rejection_trace @ later) (projr (getBrowserPool one_default)))) \<and>
   d_task (dispatches (run one_default (bare_rejection_trace @ later) (projr (getBrowserPool one_default))) ! 0) = 0 \<and>
   taskCompleted (dispatches (run one_default (bare_rejection_trace @ later) (projr (getBrowserPool one_default))) ! 0) \<and>
   settled_with (settlements (run one_default (bare_rejection_trace @ later) (projr (getBrowserPool one_default)))) 0 = [] \<and>
   0 < length (dispatches (run one_default (throwing_call_trace @ later) (projr (getBrowserPool one_default)))) \<and>
   d_task (dispatches (run one_default (throwing_call_trace @ later) (projr (getBrowserPool one_default))) ! 0) = 0 \<and>
   \<not> taskCompleted (dispatches (run one_default (throwing_call_trace @ later) (projr (getBrowserPool one_default))) ! 0) \<and>
   settled_with (settlements (run one_default (throwing_call_trace @ later) (projr (getBrowserPool one_default)))) 0 = []"
proof -
  let ?init = "projr (getBrowserPool one_default)"
  let ?s1 = "run one_default bare_rejection_trace ?init"
  let ?s2 = "run one_default throwing_call_trace ?init"
  have h: "getBrowserPool one_default = Inr ?init"
    by code_simp
  have ok1: "tasks_ok ?s1" by (rule tasks_ok_run [OF h])
  have a: "0 < length (dispatches ?s1)" "taskCompleted (dispatches ?s1 ! 0)"
    by code_simp+
  have t1: "d_task (dispatches ?s1 ! 0) = 0"
    by code_simp
  have "settled_with (settlements ?s1) 0 = []"
    by code_simp
  with t1 have u: "settled_with (settlements ?s1) (d_task (dispatches ?s1 ! 0)) = []"
    by simp
  from unanswered_run [OF ok1 a u, of one_default later] t1
  have first: "0 < length (dispatches (run one_default later ?s1))"
    "d_task (dispatches (run one_default later ?s1) ! 0) = 0"
    "taskCompleted (dispatches (run one_default later ?s1) ! 0)"
    "settled_with (settlements (run one_default later ?s1)) 0 = []"
    by simp_all
  have b: "0 < length (dispatches ?s2)" "callThrew (dispatches ?s2 ! 0)"
    by code_simp+
  have t2: "d_task (dispatches ?s2 ! 0) = 0" "\<not> taskCompleted (dispatches ?s2 ! 0)"
    by code_simp+
  from thrown_dispatch_run [OF b, of one_default later]
  have k2: "0 < length (dispatches (run one_default later ?s2))"
    and e2: "dispatches (run one_default later ?s2) ! 0 = dispatches ?s2 ! 0"
    by simp_all
  have "tasks_ok (run one_default (throwing_call_trace @ later) ?init)"
    by (rule tasks_ok_run [OF h])
  then have ok2: "tasks_ok (run one_default later ?s2)" by simp
  from e2 t2 have n2: "\<not> taskCompleted (dispatches (run one_default later ?s2) ! 0)" by simp
  from unsettled_dispatch [OF ok2 k2 n2] e2 t2
  have "settled_with (settlements (run one_default later ?s2)) 0 = []" by simp
  with first k2 e2 t2 show ?thesis by simp
qed

subsection \<open>C3: every settlement releases the browser and runs the scheduler\<close>

text \<open>
  What holds of a dispatch whose task call returned and whose \<^verbatim>\<open>finally\<close> handler has
  not run.  While its race is open, each of the settling events (the timer, the task's
  success, the task's failure with any value) leaves it settled and not yet released,
  which is when the \<^verbatim>\<open>finally\<close> handler runs.  Once the race has settled, the handler
  is \<^verbatim>\<open>_processQueue\<close> applied to the state in which the browser is released: there
  its \<^verbatim>\<open>busy\<close> flag is false and its \<^verbatim>\<open>pagesOpen\<close> is one less than before, which
  is the value the dispatch found.  This also holds for a browser that has been removed
  from the roster meanwhile.
\<close>

lemma every_settlement_releases_browser:
  assumes "getBrowserPool cfg = Inr s0" and "k < length (dispatches (run cfg evs s0))"
    and "\<not> callThrew (dispatches (run cfg evs s0) ! k)"
    and "\<not> released (dispatches (run cfg evs s0) ! k)"
  shows "(\<not> taskCompleted (dispatches (run cfg evs s0) ! k) \<longrightarrow>
           (\<forall>e \<in> {TimerFires k} \<union> range (TaskSettles k).
              taskCompleted (dispatches (step cfg e (run cfg evs s0)) ! k) \<and>
              \<not> released (dispatches (step cfg e (run cfg evs s0)) ! k)))
     \<and> (taskCompleted (dispatches (run cfg evs s0) ! k) \<longrightarrow>
           step cfg (Finally k) (run cfg evs s0) = processQueue cfg (release k (run cfg evs s0)) \<and>
           \<not> busy (objects (release k (run cfg evs s0)) ! d_browser (dispatches (run cfg evs s0) ! k)) \<and>
           pagesOpen (objects (release k (run cfg evs s0)) ! d_browser (dispatches (run cfg evs s0) ! k))
             = pagesOpenBefore (dispatches (run cfg evs s0) ! k) \<and>
           pagesOpen (objects (release k (run cfg evs s0)) ! d_browser (dispatches (run cfg evs s0) ! k))
             = pagesOpen (objects (run cfg evs s0) ! d_browser (dispatches (run cfg evs s0) ! k)) - 1 \<and>
           released (dispatches (release k (run cfg evs s0)) ! k))"
proof -
  let ?s = "run cfg evs s0"
  let ?d = "dispatches ?s ! k"
  have rok: "roster_ok cfg ?s" by (rule roster_ok_run [OF assms(1)])
  have tok: "tasks_ok ?s" by (rule tasks_ok_run [OF assms(1)])
  from assms(2) have mem: "?d \<in> set (dispatches ?s)" by simp
  with rok have lt: "d_browser ?d < length (objects ?s)" by (simp add: roster_ok_def)
  have a: "taskCompleted (dispatches (step cfg e ?s) ! k) \<and> \<not> released (dispatches (step cfg e ?s) ! k)"
    if "\<not> taskCompleted ?d" and "e \<in> {TimerFires k} \<union> range (TaskSettles k)" for e
    using that unsettled_dispatch [OF tok assms(2) that(1)] assms(2,3,4)
    by (auto simp: timer_fires_def task_settles_def Let_def)
  have b: "step cfg (Finally k) ?s = processQueue cfg (release k ?s)" if "taskCompleted ?d"
    using that assms(2,3,4) by (simp add: finally_handler_def)
  have c: "pagesOpen (objects (release k ?s) ! d_browser ?d) = pagesOpen (objects ?s ! d_browser ?d) - 1"
    "released (dispatches (release k ?s) ! k)"
    using lt assms(2) by (simp_all add: release_def Let_def)
  from a b c roster_ok_release(2,3) [OF rok assms(2) _ assms(4)] show ?thesis
    by blast
qed

text \<open>
  Task 0 runs, task 1 waits, the timer of task 0 fires: the \<^verbatim>\<open>finally\<close> handler
  frees browser 0 and its scheduler pass dispatches task 1.
\<close>

lemma every_settlement_releases_browser_example:
  "getBrowserPool one_default = Inr (projr (getBrowserPool one_default)) \<and>
   0 < length (dispatches (run one_default [LaunchSettles 0 None, plain_task 0, plain_task 0, TimerFires 0]
                  (projr (getBrowserPool one_default)))) \<and>
   \<not> released (dispatches (run one_default [LaunchSettles 0 None, plain_task 0, plain_task 0, TimerFires 0]
                  (projr (getBrowserPool one_default))) ! 0) \<and>
   taskCompleted (dispatches (run one_default [LaunchSettles 0 None, plain_task 0, plain_task 0, TimerFires 0]
                  (projr (getBrowserPool one_default))) ! 0) \<and>
   \<not> busy (objects (release 0 (run one_default [LaunchSettles 0 None, plain_task 0, plain_task 0, TimerFires 0]
                  (projr (getBrowserPool one_default)))) ! 0) \<and>
   pagesOpen (objects (release 0 (run one_default [LaunchSettles 0 None, plain_task 0, plain_task 0, TimerFires 0]
                  (projr (getBrowserPool one_default)))) ! 0) = 0 \<and>
   map d_task (dispatches (step one_default (Finally 0)
                 (run one_default [LaunchSettles 0 None, plain_task 0, plain_task 0, TimerFires 0]
                  (projr (getBrowserPool one_default))))) = [0, 1]"
proof -
  let ?init = "projr (getBrowserPool one_default)"
  let ?evs = "[LaunchSettles 0 None, plain_task 0, plain_task 0, TimerFires 0]"
  have h1: "getBrowserPool one_default = Inr ?init"
    by code_simp
  have h2: "0 < length (dispatches (run one_default ?evs ?init))"
    by code_simp
  have h3: "\<not> released (dispatches (run one_default ?evs ?init) ! 0)"
    by code_simp
  have h4: "taskCompleted (dispatches (run one_default ?evs ?init) ! 0)"
    by code_simp
  have h5: "\<not> callThrew (dispatches (run one_default ?evs ?init) ! 0)"
    by code_simp
  have b: "d_browser (dispatches (run one_default ?evs ?init) ! 0) = 0"
    "pagesOpenBefore (dispatches (run one_default ?evs ?init) ! 0) = 0"
    by code_simp+
  have n: "map d_task (dispatches (processQueue one_default (release 0 (run one_default ?evs ?init)))) = [0, 1]"
    by code_simp
  from every_settlement_releases_browser [OF h1 h2 h5 h3] h1 h2 h3 h4 b n show ?thesis
    by simp
qed

text \<open>
  Claim C3 concludes that every dispatch frees the capacity it consumed.  The dispatch
  branch sets \<^verbatim>\<open>busy\<close> and increments \<^verbatim>\<open>pagesOpen\<close> before it calls the task, and it
  attaches the \<^verbatim>\<open>finally\<close> handler after the call.  When the call throws, no handler
  is attached: the dispatch has no settlement path at all, and whatever happens later
  the browser stays busy with one page open.  In a pool of one browser the next task
  then waits in the queue: the stats show a busy browser, no idle one and a queued task.
\<close>

theorem browser_stays_busy_after_throwing_call:
  "0 < length (dispatches (run one_default (throwing_call_trace @ later) (projr (getBrowserPool one_default)))) \<and>
   d_browser (dispatches (run one_default (throwing_call_trace @ later) (projr (getBrowserPool one_default))) ! 0) = 0 \<and>
   \<not> released (dispatches (run one_default (throwing_call_trace @ later) (projr (getBrowserPool one_default))) ! 0) \<and>
   busy (objects (run one_default (throwing_call_trace @ later) (projr (getBrowserPool one_default))) ! 0) \<and>
   pagesOpen (objects (run one_default (throwing_call_trace @ later) (projr (getBrowserPool one_default))) ! 0) = 1 \<and>
   getStats (run one_default (throwing_call_trace @ starved_trace) (projr (getBrowserPool one_default)))
     = \<lparr>totalBrowsers = 1, defaultBrowsers = 1, adblockBrowsers = 0, busyBrowsers = 1,
        idleBrowsers = 0, queuedTasks = 1\<rparr>"
proof -
  let ?init = "projr (getBrowserPool one_default)"
  let ?s = "run one_default throwing_call_trace ?init"
  let ?s' = "run one_default later ?s"
  have h: "getBrowserPool one_default = Inr ?init"
    by code_simp
  have b: "0 < length (dispatches ?s)" "callThrew (dispatches ?s ! 0)"
    by code_simp+
  have d: "d_browser (dispatches ?s ! 0) = 0" "\<not> released (dispatches ?s ! 0)"
    by code_simp+
  from thrown_dispatch_run [OF b, of one_default later]
  have k: "0 < length (dispatches ?s')" and e: "dispatches ?s' ! 0 = dispatches ?s ! 0"
    by simp_all
  from k have mem: "dispatches ?s' ! 0 \<in> set (dispatches ?s')" by (rule nth_mem)
  have "roster_ok one_default (run one_default (throwing_call_trace @ later) ?init)"
    by (rule roster_ok_run [OF h])
  then have ok: "roster_ok one_default ?s'" by simp
  from ok mem e d have lt: "0 < length (objects ?s')"
    by (auto simp: roster_ok_def)
  from mem e d have "0 < holders (dispatches ?s') 0"
    by (intro holders_pos [of "dispatches ?s' ! 0"]) simp_all
  with ok lt have "busy (objects ?s' ! 0)" "pagesOpen (objects ?s' ! 0) = 1"
    by (auto simp: roster_ok_def)
  moreover have "getStats (run one_default (throwing_call_trace @ starved_trace) ?init)
     = \<lparr>totalBrowsers = 1, defaultBrowsers = 1, adblockBrowsers = 0, busyBrowsers = 1,
        idleBrowsers = 0, queuedTasks = 1\<rparr>"
    by code_simp
  ultimately show ?thesis using k e d by simp
qed

subsection \<open>C4: jobs on one browser\<close>

text \<open>
  Claim C4 says that no more jobs execute on one browser than
  \<^verbatim>\<open>maxPagesPerBrowser\<close>, also when an earlier job timed out and goes on running.  The
  timeout does not stop the task function; the \<^verbatim>\<open>finally\<close> handler frees the browser
  all the same.  With a limit of one: task 0 times out and is released, task 1 is
  dispatched to the same browser, and two task functions execute on it.
\<close>

theorem executions_exceed_limit_after_timeout:
  "\<not> int (executing (dispatches (run one_default timeout_trace (projr (getBrowserPool one_default)))) 0)
       \<le> maxPagesPerBrowser one_default"
  by code_simp

text \<open>
  Claim C4 as amended: what the limit bounds is the number of dispatches that hold a
  browser, from the dispatch to the \<^verbatim>\<open>finally\<close> handler.  On every browser object that
  number is at most one, at most \<^verbatim>\<open>maxPagesPerBrowser\<close> (zero when that is negative),
  equal to \<^verbatim>\<open>pagesOpen\<close>, and one exactly when the browser is \<^verbatim>\<open>busy\<close>.
\<close>

theorem holders_within_limit:
  assumes "getBrowserPool cfg = Inr s0" and "i < length (objects (run cfg evs s0))"
  shows "holders (dispatches (run cfg evs s0)) i \<le> 1
     \<and> int (holders (dispatches (run cfg evs s0)) i) \<le> max 0 (maxPagesPerBrowser cfg)
     \<and> pagesOpen (objects (run cfg evs s0) ! i) = int (holders (dispatches (run cfg evs s0)) i)
     \<and> busy (objects (run cfg evs s0) ! i) = (holders (dispatches (run cfg evs s0)) i = 1)"
proof -
  let ?s = "run cfg evs s0"
  have ok: "roster_ok cfg ?s" by (rule roster_ok_run [OF assms(1)])
  with assms(2) have a: "holders (dispatches ?s) i \<le> 1"
    "pagesOpen (objects ?s ! i) = int (holders (dispatches ?s) i)"
    "busy (objects ?s ! i) = (holders (dispatches ?s) i = 1)"
    by (simp_all add: roster_ok_def)
  have "int (holders (dispatches ?s) i) \<le> max 0 (maxPagesPerBrowser cfg)"
  proof (cases "dispatches ?s = []")
    case True
    then show ?thesis by simp
  next
    case False
    with ok have "0 < maxPagesPerBrowser cfg" by (simp add: roster_ok_def)
    with a(1) show ?thesis by simp
  qed
  with a show ?thesis by simp
qed

text \<open>In the state of the counterexample one dispatch holds browser 0.\<close>

theorem holders_within_limit_witness:
  "getBrowserPool one_default = Inr (projr (getBrowserPool one_default)) \<and>
   0 < length (objects (run one_default timeout_trace (projr (getBrowserPool one_default)))) \<and>
   holders (dispatches (run one_default timeout_trace (projr (getBrowserPool one_default)))) 0 = 1 \<and>
   pagesOpen (objects (run one_default timeout_trace (projr (getBrowserPool one_default))) ! 0) = 1"
proof -
  let ?s = "run one_default timeout_trace (projr (getBrowserPool one_default))"
  have h1: "getBrowserPool one_default = Inr (projr (getBrowserPool one_default))"
    by code_simp
  have h2: "0 < length (objects ?s)"
    by code_simp
  have n: "holders (dispatches ?s) 0 = 1"
    by code_simp
  from holders_within_limit [OF h1 h2] h1 h2 n show ?thesis
    by simp
qed

subsection \<open>C5: after shutdown\<close>

text \<open>
  Claim C5 says that after \<^verbatim>\<open>shutdown()\<close> has resolved the stats report no queued
  task and no browser.  \<^verbatim>\<open>shutdown\<close> closes the browsers that are in the roster when
  it is called; \<^verbatim>\<open>_launchBrowser\<close> does not look at \<^verbatim>\<open>shuttingDown\<close> when its launch
  resolves.  Here the only browser has crashed and its replacement is being launched when
  \<^verbatim>\<open>shutdown\<close> is called: the launch resolves while the shutdown waits, and when the
  shutdown resolves the queue is empty but the roster holds a browser that nobody
  closes.  The rest of the claim holds (\<open>shutdown_drains_queue\<close>), and so does this
  part when no launch is under way at the call (\<open>shutdown_closes_all_browsers\<close>).
\<close>

theorem browser_left_after_shutdown:
  "shutdown_resolved (shutdowns (run one_default late_launch_trace (projr (getBrowserPool one_default))) ! 0) \<and>
   queuedTasks (getStats (run one_default late_launch_trace (projr (getBrowserPool one_default)))) = 0 \<and>
   totalBrowsers (getStats (run one_default late_launch_trace (projr (getBrowserPool one_default)))) = 1 \<and>
   isConnected (objects (run one_default late_launch_trace (projr (getBrowserPool one_default))) ! 1)"
  by code_simp

subsection \<open>C6: an enqueue that is rejected\<close>

text \<open>
  Claim C6: when the pool is shutting down, or the task is not a function, or the
  requirements ask for adblock while \<^verbatim>\<open>pool_size_adblock\<close> is 0 or no
  \<^verbatim>\<open>adblockExtensionPath\<close> is configured, \<^verbatim>\<open>queueTaskWithRequirements\<close> returns a
  promise that is already rejected and leaves the whole pool, hence the queue and its
  length, as it was.
\<close>

theorem rejected_enqueue_leaves_queue:
  assumes "shuttingDown s \<or> taskFunction = NotFunction
           \<or> (use_adblock reqs \<and> (pool_size_adblock cfg = 0 \<or> \<not> has_adblock_path cfg))"
  shows "(\<exists>e. fst (queueTaskWithRequirements cfg taskFunction reqs prio s) = AlreadyRejected e)
     \<and> snd (queueTaskWithRequirements cfg taskFunction reqs prio s) = s
     \<and> queue_length (taskQueue (snd (queueTaskWithRequirements cfg taskFunction reqs prio s)))
       = queue_length (taskQueue s)"
  using assms by (auto simp: queueTaskWithRequirements_def)

text \<open>A pool with \<^verbatim>\<open>pool_size_adblock\<close> 0 and one task waiting; a task that needs adblock.\<close>

theorem rejected_enqueue_leaves_queue_witness:
  "(use_adblock \<lparr>use_adblock = True\<rparr> \<and> pool_size_adblock one_default = 0) \<and>
   fst (queueTaskWithRequirements one_default (Function Returns) \<lparr>use_adblock = True\<rparr> 5
          (run one_default [LaunchSettles 0 None, plain_task 0, plain_task 0] (projr (getBrowserPool one_default))))
     = AlreadyRejected AdblockNotConfigured \<and>
   queue_length (taskQueue (snd (queueTaskWithRequirements one_default (Function Returns) \<lparr>use_adblock = True\<rparr> 5
          (run one_default [LaunchSettles 0 None, plain_task 0, plain_task 0] (projr (getBrowserPool one_default))))))
     = 1"
proof -
  have h: "use_adblock \<lparr>use_adblock = True\<rparr> \<and> pool_size_adblock one_default = 0"
    by (simp add: one_default_def)
  have q: "queue_length (taskQueue (run one_default [LaunchSettles 0 None, plain_task 0, plain_task 0]
              (projr (getBrowserPool one_default)))) = 1"
    by code_simp
  have r: "fst (queueTaskWithRequirements one_default (Function Returns) \<lparr>use_adblock = True\<rparr> 5
          (run one_default [LaunchSettles 0 None, plain_task 0, plain_task 0] (projr (getBrowserPool one_default))))
     = AlreadyRejected AdblockNotConfigured"
    by code_simp
  from h have "shuttingDown (run one_default [LaunchSettles 0 None, plain_task 0, plain_task 0]
                   (projr (getBrowserPool one_default)))
      \<or> Function Returns = NotFunction
      \<or> (use_adblock \<lparr>use_adblock = True\<rparr> \<and> (pool_size_adblock one_default = 0 \<or> \<not> has_adblock_path one_default))"
    by simp
  from rejected_enqueue_leaves_queue [OF this, of 5] h q r show ?thesis by simp
qed

subsection \<open>C7: the order of the queue\<close>

text \<open>
  Claim C7: in every reachable state the queue is ordered by descending priority, tasks
  of equal priority by ascending id, that is in the order in which they were enqueued; so
  its head has the highest priority and, among the tasks of that priority, is the
  earliest.  Every id in the queue is below the counter, an \<^verbatim>\<open>enqueue\<close> gives out the
  counter as the new id, and the queue it leaves is ordered in the same way: the sort
  does not break the order of arrival.  A scheduler pass dispatches no task but the
  head.
\<close>

theorem queue_in_priority_then_arrival_order:
  assumes "getBrowserPool cfg = Inr s0"
  shows "sorted_wrt served_before (items (taskQueue (run cfg evs s0)))
     \<and> (\<forall>x rest y. items (taskQueue (run cfg evs s0)) = x # rest \<and> y \<in> set rest \<longrightarrow>
           priority y < priority x \<or> (priority y = priority x \<and> item_id x < item_id y))
     \<and> (\<forall>x \<in> set (items (taskQueue (run cfg evs s0))). item_id x < taskIdCounter (taskQueue (run cfg evs s0)))
     \<and> (\<forall>t p r. fst (enqueue t p r (taskQueue (run cfg evs s0))) = taskIdCounter (taskQueue (run cfg evs s0))
           \<and> sorted_wrt served_before (items (snd (enqueue t p r (taskQueue (run cfg evs s0))))))
     \<and> (\<forall>d \<in> set (dispatches (processQueue cfg (run cfg evs s0))) - set (dispatches (run cfg evs s0)).
           \<exists>x rest. items (taskQueue (run cfg evs s0)) = x # rest \<and> d_task d = item_id x)"
proof -
  let ?s = "run cfg evs s0"
  have ok: "queue_ok (taskQueue ?s)" by (rule queue_ok_run [OF assms])
  then have a: "sorted_wrt served_before (items (taskQueue ?s))"
    and c: "\<forall>x \<in> set (items (taskQueue ?s)). item_id x < taskIdCounter (taskQueue ?s)"
    by (simp_all add: queue_ok_def)
  have b: "\<forall>x rest y. items (taskQueue ?s) = x # rest \<and> y \<in> set rest \<longrightarrow>
           priority y < priority x \<or> (priority y = priority x \<and> item_id x < item_id y)"
  proof (intro allI impI)
    fix x rest y
    assume "items (taskQueue ?s) = x # rest \<and> y \<in> set rest"
    with a have "served_before x y" by auto
    then show "priority y < priority x \<or> (priority y = priority x \<and> item_id x < item_id y)"
      by (auto simp: served_before_def)
  qed
  have d: "\<forall>t p r. fst (enqueue t p r (taskQueue ?s)) = taskIdCounter (taskQueue ?s)
           \<and> sorted_wrt served_before (items (snd (enqueue t p r (taskQueue ?s))))"
    using queue_ok_enqueue [OF ok] by (simp add: queue_ok_def enqueue_def Let_def)
  have e: "\<forall>d \<in> set (dispatches (processQueue cfg ?s)) - set (dispatches ?s).
           \<exists>x rest. items (taskQueue ?s) = x # rest \<and> d_task d = item_id x"
    by (cases cfg ?s rule: processQueue_cases) (auto simp: assign_def Let_def)
  from a b c d e show ?thesis by blast
qed

text \<open>
  Tasks 0 to 5 with priorities 0, 1, 2, 1, 2, 0: task 0 is dispatched, the others wait
  in the order 2, 4, 1, 3, 5.
\<close>

theorem queue_in_priority_then_arrival_order_witness:
  "getBrowserPool one_default = Inr (projr (getBrowserPool one_default)) \<and>
   map item_id (items (taskQueue (run one_default priority_trace (projr (getBrowserPool one_default)))))
     = [2, 4, 1, 3, 5] \<and>
   map priority (items (taskQueue (run one_default priority_trace (projr (getBrowserPool one_default)))))
     = [2, 2, 1, 1, 0] \<and>
   sorted_wrt served_before (items (taskQueue (run one_default priority_trace (projr (getBrowserPool one_default)))))"
proof -
  have h: "getBrowserPool one_default = Inr (projr (getBrowserPool one_default))"
    by code_simp
  have i: "map item_id (items (taskQueue (run one_default priority_trace (projr (getBrowserPool one_default)))))
     = [2, 4, 1, 3, 5]"
    by code_simp
  have p: "map priority (items (taskQueue (run one_default priority_trace (projr (getBrowserPool one_default)))))
     = [2, 2, 1, 1, 0]"
    by code_simp
  from queue_in_priority_then_arrival_order [OF h, of priority_trace] h i p show ?thesis
    by simp
qed

subsection \<open>C8: a warm-up launch fails\<close>

text \<open>
  Claim C8 says that when a warm-up launch fails the constructor rejects and no launched
  browser stays alive.  \<^verbatim>\<open>Promise.all\<close> rejects with the first failure, and the
  \<^verbatim>\<open>shutdown\<close> of the \<^verbatim>\<open>catch\<close> block closes the browsers launched so far.  Here the
  adblock launch fails while the default launch is still pending; the default launch
  resolves afterwards, and when the constructor has thrown its error the roster holds a
  connected browser.  When the failing launch is the last to settle, no browser is left
  (\<open>failed_construction_closes_settled_launches\<close>).
\<close>

theorem browser_left_after_failed_construction:
  "construction (run default_and_adblock warmup_failure_trace (projr (getBrowserPool default_and_adblock)))
     = Failed (InitializationFailed ''boom'') \<and>
   browsers (run default_and_adblock warmup_failure_trace (projr (getBrowserPool default_and_adblock))) = [0] \<and>
   isConnected (objects (run default_and_adblock warmup_failure_trace (projr (getBrowserPool default_and_adblock))) ! 0)"
  by code_simp

subsection \<open>C9: the browser a scheduler pass takes\<close>

lemma busy_not_suitable:
  "busy (objects s ! b) \<Longrightarrow> findSuitableBrowser cfg req s \<noteq> Some b"
  by (auto simp: findSuitableBrowser_def suitable_def dest: find_SomeD)

text \<open>
  Claim C9, for every state whose roster refers to existing objects (every state in
  which the scheduler runs is one, by \<open>roster_ok\<close>).  When a pass of
  \<^verbatim>\<open>_processQueue\<close> dispatches, it dispatches the head of the queue to a browser of
  the roster that was not busy, had fewer pages open than \<^verbatim>\<open>maxPagesPerBrowser\<close>,
  is connected, and is of the type the task requires: an \<^verbatim>\<open>adblock\<close> browser for a
  task with \<^verbatim>\<open>use_adblock\<close>, a \<^verbatim>\<open>default\<close> browser for any other.  The pass is one
  step, and at its end the browser is busy (also when the call of the task threw), so
  that no search finds it again before it is freed.
\<close>

theorem dispatch_takes_free_browser:
  assumes "\<forall>b\<in>set (browsers s). b < length (objects s)"
    and "dispatches (processQueue cfg s) \<noteq> dispatches s"
  shows "\<exists>x rest b.
      items (taskQueue s) = x # rest \<and> findSuitableBrowser cfg (requirements x) s = Some b \<and>
      b \<in> set (browsers s) \<and>
      \<not> busy (objects s ! b) \<and> pagesOpen (objects s ! b) < maxPagesPerBrowser cfg \<and>
      browser_type (objects s ! b) = (if use_adblock (requirements x) then ''adblock'' else ''default'') \<and>
      isConnected (objects s ! b) \<and>
      dispatches (processQueue cfg s) = dispatches s @
        [\<lparr>d_task = item_id x, d_browser = b, callThrew = (task x \<noteq> Function Returns),
          taskCompleted = False, executionSettled = False, released = False,
          pagesOpenBefore = pagesOpen (objects s ! b)\<rparr>] \<and>
      busy (objects (processQueue cfg s) ! b) \<and>
      (\<forall>req. findSuitableBrowser cfg req (processQueue cfg s) \<noteq> Some b)"
proof (cases cfg s rule: processQueue_cases)
  case idle
  with assms(2) show ?thesis by simp
next
  case (launch x rest)
  with assms(2) show ?thesis by simp
next
  case (dispatch x rest b)
  from dispatch(3) have b: "b \<in> set (browsers s)"
    and su: "suitable cfg (requiredType (requirements x)) (objects s ! b)"
    by (auto simp: findSuitableBrowser_def dest: find_SomeD)
  from su have ty: "browser_type (objects s ! b)
      = (if use_adblock (requirements x) then ''adblock'' else ''default'')"
    by (simp add: suitable_def requiredType_def)
  from b assms(1) have lt: "b < length (objects s)" by simp
  have ds: "dispatches (processQueue cfg s) = dispatches s @
        [\<lparr>d_task = item_id x, d_browser = b, callThrew = (task x \<noteq> Function Returns),
          taskCompleted = False, executionSettled = False, released = False,
          pagesOpenBefore = pagesOpen (objects s ! b)\<rparr>]"
    by (simp add: dispatch(4) assign_def Let_def)
  have bs: "busy (objects (processQueue cfg s) ! b)"
    using lt by (simp add: dispatch(4) assign_def Let_def)
  then have "\<forall>req. findSuitableBrowser cfg req (processQueue cfg s) \<noteq> Some b"
    by (simp add: busy_not_suitable)
  with dispatch(2,3) b su ty ds bs show ?thesis
    by (simp add: suitable_def)
qed

text \<open>
  A reachable state in which a task that needs adblock waits while browsers are free: the
  adblock browser has crashed and its replacement, browser 2, has just been launched.
  Browser 0 comes first in the roster and is free, but it is a \<^verbatim>\<open>default\<close> browser:
  a pass dispatches the task to browser 2.
\<close>

theorem dispatch_takes_free_browser_witness:
  "list_all (\<lambda>b. b < length (objects (run default_and_adblock idle_adblock_trace
                                    (projr (getBrowserPool default_and_adblock)))))
      (browsers (run default_and_adblock idle_adblock_trace (projr (getBrowserPool default_and_adblock)))) \<and>
   dispatches (processQueue default_and_adblock
       (run default_and_adblock idle_adblock_trace (projr (getBrowserPool default_and_adblock))))
     \<noteq> dispatches (run default_and_adblock idle_adblock_trace (projr (getBrowserPool default_and_adblock))) \<and>
   browsers (run default_and_adblock idle_adblock_trace (projr (getBrowserPool default_and_adblock))) = [0, 2] \<and>
   \<not> busy (objects (run default_and_adblock idle_adblock_trace
                     (projr (getBrowserPool default_and_adblock))) ! 0) \<and>
   browser_type (objects (run default_and_adblock idle_adblock_trace
                     (projr (getBrowserPool default_and_adblock))) ! 0) = ''default'' \<and>
   map (use_adblock \<circ> requirements)
     (items (taskQueue (run default_and_adblock idle_adblock_trace
                          (projr (getBrowserPool default_and_adblock))))) = [True] \<and>
   map d_browser (dispatches (processQueue default_and_adblock
       (run default_and_adblock idle_adblock_trace (projr (getBrowserPool default_and_adblock))))) = [1, 2] \<and>
   browser_type (objects (run default_and_adblock idle_adblock_trace
                     (projr (getBrowserPool default_and_adblock))) ! 2) = ''adblock'' \<and>
   busy (objects (processQueue default_and_adblock
     (run default_and_adblock idle_adblock_trace (projr (getBrowserPool default_and_adblock)))) ! 2)"
proof -
  let ?s = "run default_and_adblock idle_adblock_trace (projr (getBrowserPool default_and_adblock))"
  have l: "list_all (\<lambda>b. b < length (objects ?s)) (browsers ?s)"
    by code_simp
  then have h1: "\<forall>b\<in>set (browsers ?s). b < length (objects ?s)"
    by (simp add: list_all_iff)
  have h2: "dispatches (processQueue default_and_adblock ?s) \<noteq> dispatches ?s"
    by code_simp
  have r: "browsers ?s = [0, 2]"
    by code_simp
  have f: "\<not> busy (objects ?s ! 0)" "browser_type (objects ?s ! 0) = ''default''"
    by code_simp+
  have q: "map (use_adblock \<circ> requirements) (items (taskQueue ?s)) = [True]"
    by code_simp
  have d: "map d_browser (dispatches (processQueue default_and_adblock ?s)) = [1, 2]"
    by code_simp
  have b: "browser_type (objects ?s ! 2) = ''adblock''"
    "busy (objects (processQueue default_and_adblock ?s) ! 2)"
    by code_simp+
  from dispatch_takes_free_browser [OF h1 h2] l h2 r f q d b show ?thesis
    by simp
qed

subsection \<open>C10: the stats\<close>

lemma length_filter_exclusive:
  "\<forall>x\<in>set xs. \<not> (P x \<and> Q x) \<Longrightarrow> length (filter P xs) + length (filter Q xs) \<le> length xs"
  by (induction xs) auto

lemma length_filter_either:
  "\<forall>x\<in>set xs. P x \<noteq> Q x \<Longrightarrow> length (filter P xs) + length (filter Q xs) = length xs"
  by (induction xs) auto

text \<open>
  Claim C10 says that \<^verbatim>\<open>defaultBrowsers + adblockBrowsers\<close> equals
  \<^verbatim>\<open>totalBrowsers\<close> in every reachable state.  \<^verbatim>\<open>killBrowser\<close> takes the type to
  replenish from its caller and launches a browser under that name, whatever it is:
  after \<^verbatim>\<open>killBrowser(browser, true, "foo")\<close> of the only browser and the launch
  that follows, the roster holds one browser, which \<^verbatim>\<open>getStats\<close> counts in neither
  class.
\<close>

theorem stats_count_neither_class:
  "defaultBrowsers (getStats (run one_default odd_kill_trace (projr (getBrowserPool one_default))))
   + adblockBrowsers (getStats (run one_default odd_kill_trace (projr (getBrowserPool one_default))))
   \<noteq> totalBrowsers (getStats (run one_default odd_kill_trace (projr (getBrowserPool one_default))))"
  by code_simp

text \<open>
  Claim C10 as amended: in every reachable state \<^verbatim>\<open>busyBrowsers + idleBrowsers\<close> equals
  \<^verbatim>\<open>totalBrowsers\<close>, no count is negative, and
  \<^verbatim>\<open>defaultBrowsers + adblockBrowsers\<close> is at most \<^verbatim>\<open>totalBrowsers\<close>; the two are
  equal when no \<^verbatim>\<open>killBrowser\<close> call so far named a type to replenish other than
  \<^verbatim>\<open>default\<close> and \<^verbatim>\<open>adblock\<close>.
\<close>

theorem stats_consistent:
  assumes "getBrowserPool cfg = Inr s0"
  shows "busyBrowsers (getStats (run cfg evs s0)) + idleBrowsers (getStats (run cfg evs s0))
           = totalBrowsers (getStats (run cfg evs s0))
     \<and> 0 \<le> totalBrowsers (getStats (run cfg evs s0)) \<and> 0 \<le> defaultBrowsers (getStats (run cfg evs s0))
     \<and> 0 \<le> adblockBrowsers (getStats (run cfg evs s0)) \<and> 0 \<le> busyBrowsers (getStats (run cfg evs s0))
     \<and> 0 \<le> idleBrowsers (getStats (run cfg evs s0)) \<and> 0 \<le> queuedTasks (getStats (run cfg evs s0))
     \<and> defaultBrowsers (getStats (run cfg evs s0)) + adblockBrowsers (getStats (run cfg evs s0))
           \<le> totalBrowsers (getStats (run cfg evs s0))
     \<and> (list_all plain_kill evs \<longrightarrow>
          defaultBrowsers (getStats (run cfg evs s0)) + adblockBrowsers (getStats (run cfg evs s0))
            = totalBrowsers (getStats (run cfg evs s0)))"
proof -
  let ?s = "run cfg evs s0"
  have a: "busyBrowsers (getStats ?s) + idleBrowsers (getStats ?s) = totalBrowsers (getStats ?s)"
    using sum_length_filter_compl [of "\<lambda>b. busy (objects ?s ! b)" "browsers ?s"]
    by (simp add: getStats_def)
  have b: "defaultBrowsers (getStats ?s) + adblockBrowsers (getStats ?s) \<le> totalBrowsers (getStats ?s)"
    using length_filter_exclusive [of "browsers ?s" "\<lambda>b. browser_type (objects ?s ! b) = ''default''"
        "\<lambda>b. browser_type (objects ?s ! b) = ''adblock''"]
    by (simp add: getStats_def)
  have c: "defaultBrowsers (getStats ?s) + adblockBrowsers (getStats ?s) = totalBrowsers (getStats ?s)"
    if "list_all plain_kill evs"
  proof -
    have rok: "roster_ok cfg ?s" by (rule roster_ok_run [OF assms])
    have tok: "types_ok ?s" by (rule types_ok_run [OF assms that])
    have "\<forall>b\<in>set (browsers ?s). (browser_type (objects ?s ! b) = ''default'')
        \<noteq> (browser_type (objects ?s ! b) = ''adblock'')"
    proof
      fix b assume "b \<in> set (browsers ?s)"
      with rok have "objects ?s ! b \<in> set (objects ?s)" by (simp add: roster_ok_def)
      with tok have "known_type (browser_type (objects ?s ! b))" by (simp add: types_ok_def)
      then show "(browser_type (objects ?s ! b) = ''default'') \<noteq> (browser_type (objects ?s ! b) = ''adblock'')"
        by (auto simp: known_type_def)
    qed
    from length_filter_either [OF this] show ?thesis
      by (simp add: getStats_def)
  qed
  have d: "0 \<le> totalBrowsers (getStats ?s)" "0 \<le> defaultBrowsers (getStats ?s)"
    "0 \<le> adblockBrowsers (getStats ?s)" "0 \<le> busyBrowsers (getStats ?s)"
    "0 \<le> idleBrowsers (getStats ?s)" "0 \<le> queuedTasks (getStats ?s)"
    by (simp_all add: getStats_def)
  from a b c d show ?thesis by blast
qed

text \<open>
  A default and an adblock browser; the adblock browser is killed while its task runs and
  is replenished as \<^verbatim>\<open>adblock\<close>; a default task runs and another waits.
\<close>

theorem stats_consistent_witness:
  "getBrowserPool default_and_adblock = Inr (projr (getBrowserPool default_and_adblock)) \<and>
   list_all plain_kill plain_kill_trace \<and>
   getStats (run default_and_adblock plain_kill_trace (projr (getBrowserPool default_and_adblock)))
     = \<lparr>totalBrowsers = 2, defaultBrowsers = 1, adblockBrowsers = 1, busyBrowsers = 1,
        idleBrowsers = 1, queuedTasks = 1\<rparr>"
proof -
  have h1: "getBrowserPool default_and_adblock = Inr (projr (getBrowserPool default_and_adblock))"
    by code_simp
  have h2: "list_all plain_kill plain_kill_trace"
    by code_simp
  have v: "getStats (run default_and_adblock plain_kill_trace (projr (getBrowserPool default_and_adblock)))
     = \<lparr>totalBrowsers = 2, defaultBrowsers = 1, adblockBrowsers = 1, busyBrowsers = 1,
        idleBrowsers = 1, queuedTasks = 1\<rparr>"
    by code_simp
  from stats_consistent [OF h1, of plain_kill_trace] h1 h2 v show ?thesis
    by simp
qed

end
